theory Spec2Isabelle
  imports Complex_Main "HOL-Library.Char_ord" "HOL-Library.List_Lexorder" "HOL-Library.Sublist"
begin

section \<open>Configuration\<close>

text \<open>
  The module-level tunables of \<^verbatim>\<open>server.py\<close> that the pipeline and the request handlers
  read.  They are parsed once from the environment with \<^verbatim>\<open>int(...)\<close> and \<^verbatim>\<open>float(...)\<close>, so
  every integer (also zero or a negative one) is a possible value.  Python floats are
  idealised as reals.
\<close>

record config =
  ENABLE_RECOG :: bool
  RECOG_DATA_DIR :: string
  RECOG_THRESHOLD :: real
  DETECT_EVERY_N :: int
  RECOG_EVERY_N :: int
  RECOG_MIN_SIDE :: int
  VOTE_WINDOW :: int
  VOTE_REQUIRE :: int
  CURRENT_EXPIRE_SEC :: real

definition default_config :: config where
  "default_config =
     \<lparr> ENABLE_RECOG = True, RECOG_DATA_DIR = ''faces'', RECOG_THRESHOLD = 11, DETECT_EVERY_N = 1, RECOG_EVERY_N = 2,
       RECOG_MIN_SIDE = 48, VOTE_WINDOW = 5, VOTE_REQUIRE = 3, CURRENT_EXPIRE_SEC = 3 / 2 \<rparr>"

section \<open>Frame decimation (\<^verbatim>\<open>detection_loop\<close>, lines 174--201)\<close>

text \<open>
  \<^verbatim>\<open>do_detect = (frame_idx % max(1, DETECT_EVERY_N) == 0)\<close> and
  \<^verbatim>\<open>do_recog = (frame_idx % max(1, RECOG_EVERY_N) == 0)\<close>.  Python's \<^verbatim>\<open>%\<close> on integers is the
  floored remainder, which is \<open>mod\<close> on \<open>int\<close> for a non-zero divisor; the divisor here
  is at least one.
\<close>

definition do_detect :: "config \<Rightarrow> int \<Rightarrow> bool" where
  "do_detect cfg frame_idx = (frame_idx mod max 1 (DETECT_EVERY_N cfg) = 0)"

definition do_recog :: "config \<Rightarrow> int \<Rightarrow> bool" where
  "do_recog cfg frame_idx = (frame_idx mod max 1 (RECOG_EVERY_N cfg) = 0)"

section \<open>The vote window (\<^verbatim>\<open>detection_loop\<close>, lines 165 and 256--266)\<close>

text \<open>One entry of \<^verbatim>\<open>pred_hist\<close>: the label and the optional confidence of a cycle.\<close>

type_synonym pred = "string \<times> real option"

text \<open>\<^verbatim>\<open>deque(maxlen=m).append(x)\<close>: append on the right, drop from the left on overflow.\<close>

definition deque_append :: "nat \<Rightarrow> 'a list \<Rightarrow> 'a \<Rightarrow> 'a list" where
  "deque_append maxlen d x = (let d' = d @ [x] in drop (length d' - maxlen) d')"

text \<open>\<^verbatim>\<open>pred_hist = deque(maxlen=max(1, VOTE_WINDOW))\<close>.\<close>

definition pred_hist_maxlen :: "config \<Rightarrow> nat" where
  "pred_hist_maxlen cfg = nat (max 1 (VOTE_WINDOW cfg))"

text \<open>
  \<^verbatim>\<open>if do_recog: pred_hist.append(best_for_vote if best_for_vote is not None
  else ("unknown", None))\<close>.
\<close>

definition push_vote :: "config \<Rightarrow> bool \<Rightarrow> pred option \<Rightarrow> pred list \<Rightarrow> pred list" where
  "push_vote cfg recog best_for_vote pred_hist =
     (if recog
      then deque_append (pred_hist_maxlen cfg) pred_hist
             (case best_for_vote of Some p \<Rightarrow> p | None \<Rightarrow> (''unknown'', None))
      else pred_hist)"

text \<open>
  \<^verbatim>\<open>collections.Counter(xs)\<close>: a dictionary in insertion order; counting an element that
  is already a key keeps the key's position, a new element is added at the end.
\<close>

fun counter_incr :: "'a \<Rightarrow> ('a \<times> nat) list \<Rightarrow> ('a \<times> nat) list" where
  "counter_incr x [] = [(x, 1)]"
| "counter_incr x ((k, n) # kvs) =
     (if k = x then (k, Suc n) # kvs else (k, n) # counter_incr x kvs)"

definition Counter :: "'a list \<Rightarrow> ('a \<times> nat) list" where
  "Counter xs = foldl (\<lambda>c x. counter_incr x c) [] xs"

text \<open>
  \<^verbatim>\<open>c.most_common(1)\<close> is \<^verbatim>\<open>heapq.nlargest(1, c.items(), key=itemgetter(1))\<close>, which for
  \<^verbatim>\<open>n == 1\<close> is \<^verbatim>\<open>max(items, key=...)\<close>: the scan keeps the current best and replaces it
  only by an item with a strictly larger count.
\<close>

fun max_by_count :: "('a \<times> nat) \<Rightarrow> ('a \<times> nat) list \<Rightarrow> ('a \<times> nat)" where
  "max_by_count best [] = best"
| "max_by_count best (kv # kvs) = max_by_count (if snd best < snd kv then kv else best) kvs"

definition most_common1 :: "('a \<times> nat) list \<Rightarrow> ('a \<times> nat) list" where
  "most_common1 c = (case c of [] \<Rightarrow> [] | kv # kvs \<Rightarrow> [max_by_count kv kvs])"

text \<open>\<^verbatim>\<open>np.mean(confs)\<close> of a non-empty list, over the reals.\<close>

definition np_mean :: "real list \<Rightarrow> real" where
  "np_mean xs = sum_list xs / real (length xs)"

text \<open>\<^verbatim>\<open>[p[0] for p in pred_hist if p[0] != "unknown"]\<close>.\<close>

definition labels_in_window :: "pred list \<Rightarrow> string list" where
  "labels_in_window pred_hist = map fst (filter (\<lambda>p. fst p \<noteq> ''unknown'') pred_hist)"

text \<open>\<^verbatim>\<open>[p[1] for p in pred_hist if p[0] == label_top and p[1] is not None]\<close>.\<close>

definition confs_of :: "pred list \<Rightarrow> string \<Rightarrow> real list" where
  "confs_of pred_hist label_top =
     map (\<lambda>p. the (snd p)) (filter (\<lambda>p. fst p = label_top \<and> snd p \<noteq> None) pred_hist)"

text \<open>
  \<^verbatim>\<open>f"{label_top} ({np.mean(confs):.1f})" if confs else label_top\<close>.  The one-decimal
  formatting of a float is the parameter \<open>fmt\<close>.
\<close>

definition annotate :: "(real \<Rightarrow> string) \<Rightarrow> string \<Rightarrow> real list \<Rightarrow> string" where
  "annotate fmt label_top confs =
     (if confs \<noteq> [] then label_top @ '' ('' @ fmt (np_mean confs) @ '')'' else label_top)"

text \<open>The smoothed label \<^verbatim>\<open>final_text\<close> of a cycle, lines 259--266.\<close>

definition final_text :: "(real \<Rightarrow> string) \<Rightarrow> config \<Rightarrow> pred list \<Rightarrow> string" where
  "final_text fmt cfg pred_hist =
     (let labs = labels_in_window pred_hist in
      if labs \<noteq> [] then
        (case hd (most_common1 (Counter labs)) of (label_top, votes) \<Rightarrow>
           if int votes \<ge> VOTE_REQUIRE cfg then annotate fmt label_top (confs_of pred_hist label_top)
           else ''unknown'')
      else ''unknown'')"

section \<open>Recognition of one box (\<^verbatim>\<open>detection_loop\<close>, lines 211--230)\<close>

text \<open>A face box \<^verbatim>\<open>(x, y, w, h)\<close> in full-resolution coordinates.\<close>

type_synonym box = "int \<times> int \<times> int \<times> int"

text \<open>A prepared face image is opaque; it is identified by a number.\<close>

type_synonym image = nat

text \<open>
  The trained classifier \<^verbatim>\<open>cv2.face.LBPHFaceRecognizer\<close> is determined by the samples
  and ids it was trained on.
\<close>

datatype recognizer = LBPH (samples: "image list") (sample_ids: "int list")

text \<open>\<^verbatim>\<open>rec.predict(face_img)\<close> returns \<^verbatim>\<open>(pred_id, conf)\<close> or raises.\<close>

datatype predict_result = Predict_Raises | Predicted int real

text \<open>
  The length of the slice \<^verbatim>\<open>a[start:stop]\<close> of an axis of length \<open>n\<close>: Python adds
  \<open>n\<close> to a negative bound and then clamps both bounds to \<open>0..n\<close>.
\<close>

definition slice_len :: "int \<Rightarrow> int \<Rightarrow> int \<Rightarrow> int" where
  "slice_len n start stop =
     (let s = (if start < 0 then max 0 (start + n) else min start n);
          e = (if stop < 0 then max 0 (stop + n) else min stop n)
      in max 0 (e - s))"

text \<open>\<^verbatim>\<open>crop = gray[y0:y0+h0, x0:x0+w0]; crop.size\<close> for a frame of \<open>rows \<times> cols\<close> pixels.\<close>

definition crop_size :: "int \<times> int \<Rightarrow> box \<Rightarrow> int" where
  "crop_size shape b =
     (case (shape, b) of ((rows, cols), (x0, y0, w0, h0)) \<Rightarrow>
        slice_len rows y0 (y0 + h0) * slice_len cols x0 (x0 + w0))"

text \<open>
  What the pipeline reads from outside during one cycle: the boxes the detector would
  return (already rescaled; read only when the detector is invoked), the shape of the
  grayscale frame, the snapshot \<^verbatim>\<open>rec = recognizer; labels = id2label.copy()\<close> taken under
  the recognizer lock, the outcome of \<^verbatim>\<open>predict\<close> on the crop of a box, and the clock
  value stamped on the \<open>k\<close>-th reported box.
\<close>

record frame_env =
  detected :: "box list"
  shape :: "int \<times> int"
  rec :: "recognizer option"
  labels :: "(int \<times> string) list"
  predict :: "recognizer \<Rightarrow> box \<Rightarrow> predict_result"
  clock :: "nat \<Rightarrow> real"

text \<open>
  The body of the \<^verbatim>\<open>for\<close> loop up to line 230 for one box: the pair
  \<^verbatim>\<open>(name_text, conf_val)\<close> and whether \<^verbatim>\<open>rec.predict\<close> was called.
\<close>

definition recognize_box ::
  "config \<Rightarrow> frame_env \<Rightarrow> bool \<Rightarrow> box \<Rightarrow> (string \<times> real option) \<times> bool" where
  "recognize_box cfg env recog b =
     (case b of (x0, y0, w0, h0) \<Rightarrow>
        let recognizable = (min w0 h0 \<ge> RECOG_MIN_SIDE cfg) in
        (case rec env of
           Some m \<Rightarrow>
             if recog \<and> recognizable then
               (if crop_size (shape env) b > 0 then
                  (case predict env m b of
                     Predicted pred_id conf \<Rightarrow>
                       (if conf \<le> RECOG_THRESHOLD cfg \<and> pred_id \<in> fst ` set (labels env)
                        then ((the (map_of (labels env) pred_id), Some conf), True)
                        else ((''unknown'', Some conf), True))
                   | Predict_Raises \<Rightarrow> ((''unknown'', None), True))
                else ((''unknown'', None), False))
             else ((''unknown'', None), False)
         | None \<Rightarrow> ((''unknown'', None), False)))"

section \<open>One pipeline cycle and the loop (\<^verbatim>\<open>detection_loop\<close>, lines 167--266)\<close>

text \<open>An entry of \<^verbatim>\<open>faces_out\<close>, published as \<^verbatim>\<open>current_people\<close>.\<close>

record person =
  label :: string
  conf :: "real option"
  bbox :: box
  ts :: real

text \<open>The variables that live across iterations of the \<^verbatim>\<open>while\<close> loop.\<close>

record loop_state =
  frame_idx :: int
  faces_fullres :: "box list"
  pred_hist :: "pred list"
  current_people :: "person list"

definition loop_init :: loop_state where
  "loop_init = \<lparr> frame_idx = 0, faces_fullres = [], pred_hist = [], current_people = [] \<rparr>"

text \<open>What one cycle did, for the properties below.\<close>

record cycle_log =
  cycle_idx :: int
  detect_called :: bool
  recog_cycle :: bool
  predict_calls :: "box list"
  overlay :: string

text \<open>\<^verbatim>\<open>sorted(faces_fullres, key=lambda b: b[2]*b[3], reverse=True)\<close>, a stable sort.\<close>

definition area :: "box \<Rightarrow> int" where
  "area b = (case b of (x0, y0, w0, h0) \<Rightarrow> w0 * h0)"

definition faces_iter :: "box list \<Rightarrow> box list" where
  "faces_iter faces = sort_key (\<lambda>b. - area b) faces"

definition cycle ::
  "(real \<Rightarrow> string) \<Rightarrow> config \<Rightarrow> frame_env \<Rightarrow> loop_state \<Rightarrow> cycle_log \<times> loop_state" where
  "cycle fmt cfg env st =
     (let idx = frame_idx st + 1;
          det = do_detect cfg idx;
          faces = (if det then detected env else faces_fullres st);
          recog = do_recog cfg idx;
          sorted_faces = faces_iter faces;
          results = map (recognize_box cfg env recog) sorted_faces;
          faces_out = map (\<lambda>(k, (b, r)).
                         \<lparr> label = fst (fst r), conf = snd (fst r), bbox = b, ts = clock env k \<rparr>)
                       (enumerate 0 (zip sorted_faces results));
          best_for_vote = (if recog then (case results of [] \<Rightarrow> None | r # _ \<Rightarrow> Some (fst r))
                           else None);
          hist = push_vote cfg recog best_for_vote (pred_hist st)
      in (\<lparr> cycle_idx = idx, detect_called = det, recog_cycle = recog,
            predict_calls = map fst (filter (\<lambda>(b, r). snd r) (zip sorted_faces results)),
            overlay = final_text fmt cfg hist \<rparr>,
          \<lparr> frame_idx = idx, faces_fullres = faces, pred_hist = hist,
            current_people = faces_out \<rparr>))"


section \<open>The current-people query (\<^verbatim>\<open>api_current\<close>, lines 743--751)\<close>

text \<open>
  \<^verbatim>\<open>[p for p in current_people if (now - float(p.get("ts", now))) <= CURRENT_EXPIRE_SEC]\<close>.
  Every published entry carries its \<^verbatim>\<open>"ts"\<close> key.
\<close>

fun api_current :: "config \<Rightarrow> real \<Rightarrow> person list \<Rightarrow> person list" where
  "api_current cfg now [] = []"
| "api_current cfg now (p # ps) =
     (if now - ts p \<le> CURRENT_EXPIRE_SEC cfg then p # api_current cfg now ps
      else api_current cfg now ps)"

section \<open>Training and reload (\<^verbatim>\<open>_iter_face_paths\<close>, \<^verbatim>\<open>train_recognizer_from_dir\<close>,
  \<^verbatim>\<open>reload_recognizer\<close>, lines 86--146)\<close>

text \<open>
  What the directory calls return for a name under the training root: it is not a
  directory (\<^verbatim>\<open>os.path.isdir\<close> is false, also for a name that has vanished), or it is a
  directory whose \<^verbatim>\<open>os.listdir\<close> raises (no permission, or removed after the test), or
  it is a directory with these file names.
\<close>

datatype listing = Not_Dir | Unlistable | Files "string list"

text \<open>
  The training root as the directory calls see it: whether \<^verbatim>\<open>os.path.isdir(root)\<close>
  holds, whether \<^verbatim>\<open>os.listdir(root)\<close> returns, and for every name it returns the
  listing of that name.
\<close>

record training_dir =
  root_is_dir :: bool
  root_listable :: bool
  entries :: "(string \<times> listing) list"

text \<open>
  Loading one path, lines 113--125: \<^verbatim>\<open>cv2.imread\<close> returned \<^verbatim>\<open>None\<close>, or the read or
  \<^verbatim>\<open>_prepare_face\<close> raised (caught and printed), or the prepared face image.
\<close>

datatype load_result = Unreadable | Load_Raises | Loaded image

text \<open>
  What training reads from outside: whether \<^verbatim>\<open>cv2\<close> has the attribute \<^verbatim>\<open>face\<close>, the
  training root, the outcome of loading a path, and whether creating and training the
  LBPH recognizer on the collected samples raises.  The exceptions of a training call
  are the missing module, a directory listing that raises, and a training that raises.
\<close>

record train_env =
  has_contrib :: bool
  train_root :: training_dir
  load :: "string \<Rightarrow> load_result"
  train_raises :: "image list \<Rightarrow> int list \<Rightarrow> bool"

datatype error = RuntimeError | OSError | TrainingError

text \<open>\<^verbatim>\<open>str.lower\<close> on the ASCII letters of a file name.\<close>

definition lower_char :: "char \<Rightarrow> char" where
  "lower_char c = (if CHR ''A'' \<le> c \<and> c \<le> CHR ''Z'' then char_of (of_char c + (32 :: nat)) else c)"

definition lower :: "string \<Rightarrow> string" where
  "lower s = map lower_char s"

text \<open>\<^verbatim>\<open>fn.lower().endswith((".jpg", ".jpeg", ".png"))\<close>.\<close>

definition is_image_name :: "string \<Rightarrow> bool" where
  "is_image_name fn =
     (suffix ''.jpg'' (lower fn) \<or> suffix ''.jpeg'' (lower fn) \<or> suffix ''.png'' (lower fn))"

text \<open>\<^verbatim>\<open>os.path.join(a, b)\<close> on POSIX for two components.\<close>

definition path_join :: "string \<Rightarrow> string \<Rightarrow> string" where
  "path_join a b =
     (if b \<noteq> [] \<and> hd b = CHR ''/'' then b
      else if a = [] \<or> last a = CHR ''/'' then a @ b
      else a @ ''/'' @ b)"

text \<open>
  The outer loop of \<^verbatim>\<open>_iter_face_paths\<close>, lines 89--95, over the sorted names: the pairs
  \<^verbatim>\<open>(label, path)\<close> it yields, file names in sorted order, or the exception of an
  \<^verbatim>\<open>os.listdir(d)\<close> that raises.  The generator is advanced by the \<^verbatim>\<open>for\<close> loop of
  line 111, outside the \<^verbatim>\<open>try\<close> of lines 113--125, so the exception ends the training
  call; the pairs yielded before it are lost with the call's local variables.
\<close>

fun iter_labels ::
  "string \<Rightarrow> training_dir \<Rightarrow> string list \<Rightarrow> error + (string \<times> string) list" where
  "iter_labels root_path td [] = Inr []"
| "iter_labels root_path td (label_name # names) =
     (case map_of (entries td) label_name of
        Some Unlistable \<Rightarrow> Inl OSError
      | Some (Files files) \<Rightarrow>
          (case iter_labels root_path td names of
             Inl e \<Rightarrow> Inl e
           | Inr pairs \<Rightarrow>
               Inr (map (\<lambda>fn. (label_name, path_join (path_join root_path label_name) fn))
                      (filter is_image_name (sort files)) @ pairs))
      | _ \<Rightarrow> iter_labels root_path td names)"

text \<open>
  \<^verbatim>\<open>_iter_face_paths(root)\<close>: nothing when the root is not a directory; otherwise the
  listing of the root may raise, and the labels are visited in sorted order.
\<close>

definition iter_face_paths ::
  "string \<Rightarrow> training_dir \<Rightarrow> error + (string \<times> string) list" where
  "iter_face_paths root_path td =
     (if \<not> root_is_dir td then Inr []
      else if \<not> root_listable td then Inl OSError
      else iter_labels root_path td (sort (map fst (entries td))))"

text \<open>
  The accumulators \<^verbatim>\<open>X, y, l2i, i2l, next_id\<close> of the training scan (prefixed \<open>scan_\<close>) and the body of its
  \<^verbatim>\<open>for\<close> loop.  The dictionaries are association lists in insertion order.
\<close>

record scan =
  scan_X :: "image list"
  scan_y :: "int list"
  scan_l2i :: "(string \<times> int) list"
  scan_i2l :: "(int \<times> string) list"
  scan_next_id :: int

definition scan_init :: scan where
  "scan_init = \<lparr> scan_X = [], scan_y = [], scan_l2i = [], scan_i2l = [], scan_next_id = 0 \<rparr>"

definition scan_one :: "(string \<Rightarrow> load_result) \<Rightarrow> scan \<Rightarrow> string \<times> string \<Rightarrow> scan" where
  "scan_one ld sc pair =
     (case pair of (label_name, path) \<Rightarrow>
        (case ld path of
           Unreadable \<Rightarrow> sc
         | Load_Raises \<Rightarrow> sc
         | Loaded face_img \<Rightarrow>
             let sc1 = sc\<lparr>scan_X := scan_X sc @ [face_img]\<rparr>;
                 sc2 = (if label_name \<notin> fst ` set (scan_l2i sc1)
                        then sc1\<lparr>scan_l2i := scan_l2i sc1 @ [(label_name, scan_next_id sc1)],
                                 scan_i2l := scan_i2l sc1 @ [(scan_next_id sc1, label_name)],
                                 scan_next_id := scan_next_id sc1 + 1\<rparr>
                        else sc1)
             in sc2\<lparr>scan_y := scan_y sc2 @ [the (map_of (scan_l2i sc2) label_name)]\<rparr>))"

definition train_recognizer_from_dir ::
  "config \<Rightarrow> train_env
     \<Rightarrow> error + (recognizer option \<times> (string \<times> int) list \<times> (int \<times> string) list)" where
  "train_recognizer_from_dir cfg env =
     (if \<not> ENABLE_RECOG cfg then Inr (None, [], [])
      else if \<not> has_contrib env then Inl RuntimeError
      else
        (case iter_face_paths (RECOG_DATA_DIR cfg) (train_root env) of
           Inl e \<Rightarrow> Inl e
         | Inr pairs \<Rightarrow>
             let sc = foldl (scan_one (load env)) scan_init pairs
             in if scan_X sc = [] then Inr (None, [], [])
                else if train_raises env (scan_X sc) (scan_y sc) then Inl TrainingError
                else Inr (Some (LBPH (scan_X sc) (scan_y sc)), scan_l2i sc, scan_i2l sc)))"

text \<open>The globals \<^verbatim>\<open>recognizer\<close>, \<^verbatim>\<open>label2id\<close> and \<^verbatim>\<open>id2label\<close>.\<close>

record recog_state =
  recognizer :: "recognizer option"
  label2id :: "(string \<times> int) list"
  id2label :: "(int \<times> string) list"

definition recog_init :: recog_state where
  "recog_init = \<lparr> recognizer = None, label2id = [], id2label = [] \<rparr>"

definition reload_recognizer :: "config \<Rightarrow> train_env \<Rightarrow> recog_state \<Rightarrow> bool \<times> recog_state" where
  "reload_recognizer cfg env rs =
     (case train_recognizer_from_dir cfg env of
        Inr (r, a, b) \<Rightarrow> (True, \<lparr> recognizer = r, label2id = a, id2label = b \<rparr>)
      | Inl e \<Rightarrow> (False, rs))"

text \<open>
  The snapshot the pipeline takes under the recognizer lock at the start of a cycle
  (lines 203--205).
\<close>

definition snapshot :: "recog_state \<Rightarrow> frame_env \<Rightarrow> frame_env" where
  "snapshot rs env = env\<lparr>rec := recognizer rs, labels := id2label rs\<rparr>"

section \<open>The capture session (lines 304--397, 544--597, 652--680)\<close>

text \<open>The global dictionary \<^verbatim>\<open>capture_state\<close>.\<close>

record capture_state =
  running :: bool
  cap_label :: "string option"
  interval_ms :: int
  target_count :: int
  saved :: "string list"
  face_only :: bool
  retrain_on_stop :: bool

definition capture_init :: capture_state where
  "capture_init =
     \<lparr> running = False, cap_label = None, interval_ms = 50, target_count = 30, saved = [],
       face_only = True, retrain_on_stop = True \<rparr>"

text \<open>
  A thread running \<^verbatim>\<open>_capture_worker\<close>: its program point and its local variables.  The
  points are: before line 346, at the loop test of line 352, before line 358, before
  line 359, before line 361, returned, and ended by an exception.
\<close>

datatype wpc = W_Start | W_Loop | W_Store | W_Clear | W_Retrain | W_Done | W_Dead

record worker =
  pc :: wpc
  w_label :: "string option"
  w_interval_ms :: int
  w_target :: int
  w_face_only :: bool
  w_saved :: "string list"

definition new_worker :: worker where
  "new_worker =
     \<lparr> pc = W_Start, w_label = None, w_interval_ms = 0, w_target = 0, w_face_only = True,
       w_saved = [] \<rparr>"

definition is_alive :: "worker \<Rightarrow> bool" where
  "is_alive w = (pc w \<noteq> W_Done \<and> pc w \<noteq> W_Dead)"

text \<open>
  The worker is past line 358, where it stores its list in \<^verbatim>\<open>capture_state\<close>, or has
  ended: it will not write the saved list again.
\<close>

definition past_store :: "worker \<Rightarrow> bool" where
  "past_store w = (pc w = W_Clear \<or> pc w = W_Retrain \<or> pc w = W_Done \<or> pc w = W_Dead)"

text \<open>The parsed parameters of a start or register request.\<close>

record start_params =
  req_label :: "string option"
  req_interval_ms :: int
  req_target_count :: int
  req_face :: bool
  req_retrain :: bool

text \<open>
  The process state the enrollment workflow touches: \<^verbatim>\<open>capture_state\<close>, the flag of
  \<^verbatim>\<open>capture_event\<close>, every worker thread started so far in start order (the global
  \<^verbatim>\<open>capture_thread\<close> is the last one), the recognizer globals, and the start and
  register requests in flight between their test of \<^verbatim>\<open>running\<close> (lines 371, 558) and
  their update of the session (lines 374, 561): the server handles requests in
  concurrent threads (\<^verbatim>\<open>threaded=True\<close>, line 766) and the handlers take no lock.
\<close>

record sys_state =
  cap :: capture_state
  capture_event :: bool
  threads :: "worker list"
  rstate :: recog_state
  admitted :: "start_params list"

definition sys_init :: sys_state where
  "sys_init =
     \<lparr> cap = capture_init, capture_event = False, threads = [], rstate = recog_init,
       admitted = [] \<rparr>"

text \<open>The outcome of \<^verbatim>\<open>_save_one_face\<close>: \<^verbatim>\<open>None\<close>, a file name, or an exception.\<close>

datatype save_result = Save_None | Save_File string | Save_Raises

text \<open>What a worker step reads from outside.\<close>

record step_input =
  save_outcome :: save_result
  tenv :: train_env

text \<open>
  One step of worker \<open>i\<close>.  At the loop test the step runs one iteration (save, append,
  sleep) or leaves the loop; \<^verbatim>\<open>time.sleep\<close> raises on a negative interval.  Lines 358, 359
  and 361--362 are one step each, in the order of the source.
\<close>

definition worker_step :: "config \<Rightarrow> step_input \<Rightarrow> nat \<Rightarrow> sys_state \<Rightarrow> sys_state" where
  "worker_step cfg inp i s =
     (if i < length (threads s) then
        (let w = threads s ! i;
             put = (\<lambda>w' s'. s'\<lparr>threads := (threads s')[i := w']\<rparr>)
         in case pc w of
              W_Start \<Rightarrow>
                put (w\<lparr>pc := W_Loop, w_label := cap_label (cap s),
                       w_interval_ms := interval_ms (cap s), w_target := target_count (cap s),
                       w_face_only := face_only (cap s), w_saved := []\<rparr>) s
            | W_Loop \<Rightarrow>
                if \<not> capture_event s \<and> int (length (w_saved w)) < w_target w then
                  (case save_outcome inp of
                     Save_Raises \<Rightarrow> put (w\<lparr>pc := W_Dead\<rparr>) s
                   | Save_None \<Rightarrow>
                       put (w\<lparr>pc := (if w_interval_ms w < 0 then W_Dead else W_Loop)\<rparr>) s
                   | Save_File fn \<Rightarrow>
                       put (w\<lparr>pc := (if w_interval_ms w < 0 then W_Dead else W_Loop),
                              w_saved := (if fn \<noteq> [] then w_saved w @ [fn] else w_saved w)\<rparr>) s)
                else put (w\<lparr>pc := W_Store\<rparr>) s
            | W_Store \<Rightarrow> put (w\<lparr>pc := W_Clear\<rparr>) (s\<lparr>cap := (cap s)\<lparr>saved := w_saved w\<rparr>\<rparr>)
            | W_Clear \<Rightarrow> put (w\<lparr>pc := W_Retrain\<rparr>) (s\<lparr>cap := (cap s)\<lparr>running := False\<rparr>\<rparr>)
            | W_Retrain \<Rightarrow>
                put (w\<lparr>pc := W_Done\<rparr>)
                  (if retrain_on_stop (cap s)
                   then s\<lparr>rstate := snd (reload_recognizer cfg (tenv inp) (rstate s))\<rparr>
                   else s)
            | W_Done \<Rightarrow> s
            | W_Dead \<Rightarrow> s)
      else s)"

text \<open>
  What happens while a handler waits: a schedule of worker steps.  \<^verbatim>\<open>join(timeout=2.0)\<close>
  on thread \<open>t\<close> returns when the thread has ended or when the time is up, that is when
  the schedule is used up.
\<close>

type_synonym schedule = "(nat \<times> step_input) list"

fun join :: "config \<Rightarrow> schedule \<Rightarrow> nat \<Rightarrow> sys_state \<Rightarrow> sys_state" where
  "join cfg [] t s = s"
| "join cfg ((i, inp) # sched) t s =
     (if is_alive (threads s ! t) then join cfg sched t (worker_step cfg inp i s) else s)"

text \<open>\<^verbatim>\<open>if capture_thread and capture_thread.is_alive(): capture_thread.join(timeout=2.0)\<close>.\<close>

definition join_capture_thread :: "config \<Rightarrow> schedule \<Rightarrow> sys_state \<Rightarrow> sys_state" where
  "join_capture_thread cfg sched s =
     (if threads s \<noteq> [] \<and> is_alive (last (threads s))
      then join cfg sched (length (threads s) - 1) s else s)"

text \<open>The fields of a JSON response the properties below read, and the HTTP status.\<close>

record response =
  status :: int
  ok :: bool
  resp_running :: "bool option"
  resp_saved :: "string list option"

text \<open>\<^verbatim>\<open>not label\<close>: the label is missing or empty.\<close>

definition no_label :: "string option \<Rightarrow> bool" where
  "no_label l = (case l of None \<Rightarrow> True | Some n \<Rightarrow> n = [])"

text \<open>Lines 374--386 and 561--572: update the session, clear the event, start a worker.\<close>

definition launch :: "start_params \<Rightarrow> sys_state \<Rightarrow> sys_state" where
  "launch p s =
     s\<lparr>cap := (cap s)\<lparr>running := True, cap_label := req_label p,
                      interval_ms := req_interval_ms p, target_count := req_target_count p,
                      face_only := req_face p, retrain_on_stop := req_retrain p, saved := []\<rparr>,
       capture_event := False,
       threads := threads s @ [new_worker]\<rparr>"

definition api_capture_start :: "start_params \<Rightarrow> sys_state \<Rightarrow> response \<times> sys_state" where
  "api_capture_start p s =
     (if no_label (req_label p)
      then (\<lparr> status = 400, ok = False, resp_running = None, resp_saved = None \<rparr>, s)
      else if running (cap s)
      then (\<lparr> status = 409, ok = False, resp_running = None, resp_saved = None \<rparr>, s)
      else (\<lparr> status = 200, ok = True, resp_running = Some True, resp_saved = None \<rparr>,
            launch p s))"

definition api_capture_stop :: "config \<Rightarrow> schedule \<Rightarrow> sys_state \<Rightarrow> response \<times> sys_state" where
  "api_capture_stop cfg sched s =
     (if \<not> running (cap s)
      then (\<lparr> status = 200, ok = True, resp_running = Some False,
               resp_saved = Some (saved (cap s)) \<rparr>, s)
      else
        let s' = join_capture_thread cfg sched (s\<lparr>capture_event := True\<rparr>)
        in (\<lparr> status = 200, ok = True, resp_running = Some (running (cap s')),
              resp_saved = Some (saved (cap s')) \<rparr>, s'))"

text \<open>A run of worker steps with no request in between.\<close>

definition run_steps :: "config \<Rightarrow> schedule \<Rightarrow> sys_state \<Rightarrow> sys_state" where
  "run_steps cfg sched s = foldl (\<lambda>s' (i, inp). worker_step cfg inp i s') s sched"

text \<open>
  The wait loop of \<^verbatim>\<open>api_register\<close>, lines 578--579: it reads \<^verbatim>\<open>running\<close>, sleeps 0.1 s
  and reads again, until \<^verbatim>\<open>running\<close> reads false or the time is up.  Each schedule of
  the list is what the workers do during one sleep.
\<close>

fun wait_idle :: "config \<Rightarrow> schedule list \<Rightarrow> sys_state \<Rightarrow> sys_state" where
  "wait_idle cfg [] s = s"
| "wait_idle cfg (burst # bursts) s =
     (if running (cap s) then wait_idle cfg bursts (run_steps cfg burst s) else s)"

definition api_register ::
  "config \<Rightarrow> start_params \<Rightarrow> bool \<Rightarrow> schedule list \<Rightarrow> sys_state
     \<Rightarrow> response \<times> sys_state" where
  "api_register cfg p wait_flag sched s =
     (if no_label (req_label p)
      then (\<lparr> status = 400, ok = False, resp_running = None, resp_saved = None \<rparr>, s)
      else if running (cap s)
      then (\<lparr> status = 409, ok = False, resp_running = None, resp_saved = None \<rparr>, s)
      else
        let s1 = launch p s in
        if wait_flag then
          (let s2 = wait_idle cfg sched s1
           in (\<lparr> status = (if \<not> running (cap s2) then 200 else 202), ok = True,
                 resp_running = Some (running (cap s2)), resp_saved = Some (saved (cap s2)) \<rparr>,
               s2))
        else (\<lparr> status = 202, ok = True, resp_running = Some True, resp_saved = None \<rparr>, s1))"

definition api_reload :: "config \<Rightarrow> train_env \<Rightarrow> sys_state \<Rightarrow> response \<times> sys_state" where
  "api_reload cfg env s =
     (case reload_recognizer cfg env (rstate s) of (done, rs) \<Rightarrow>
        (\<lparr> status = (if done then 200 else 500), ok = done, resp_running = None,
            resp_saved = None \<rparr>,
         s\<lparr>rstate := rs\<rparr>))"

text \<open>
  What \<^verbatim>\<open>api_delete_label\<close> reads from outside: whether the label's directory exists,
  whether removing it raises, and the training environment of the reload after it.
\<close>

record delete_env =
  target_is_dir :: bool
  rmtree_raises :: bool
  denv :: train_env

definition api_delete_label ::
  "config \<Rightarrow> string option \<Rightarrow> delete_env \<Rightarrow> schedule \<Rightarrow> sys_state \<Rightarrow> response \<times> sys_state" where
  "api_delete_label cfg l env sched s =
     (if no_label l
      then (\<lparr> status = 400, ok = False, resp_running = None, resp_saved = None \<rparr>, s)
      else if \<not> target_is_dir env
      then (\<lparr> status = 404, ok = False, resp_running = None, resp_saved = None \<rparr>, s)
      else
        let s1 = (if running (cap s) \<and> cap_label (cap s) = l
                  then (let s' = join_capture_thread cfg sched (s\<lparr>capture_event := True\<rparr>)
                        in s'\<lparr>cap := (cap s')\<lparr>running := False\<rparr>\<rparr>)
                  else s)
        in if rmtree_raises env
           then (\<lparr> status = 500, ok = False, resp_running = None, resp_saved = None \<rparr>, s1)
           else (\<lparr> status = 200, ok = True, resp_running = None, resp_saved = None \<rparr>,
                 s1\<lparr>rstate := snd (reload_recognizer cfg (denv env) (rstate s1))\<rparr>))"

text \<open>
  The two halves of a start or register handler when other threads run in between: the
  test of the label and of \<^verbatim>\<open>running\<close> (lines 369--372, 549--559), after which the
  request is in flight, and the update and launch of a request in flight (lines 374--386,
  561--572).
\<close>

definition admit :: "start_params \<Rightarrow> sys_state \<Rightarrow> sys_state" where
  "admit p s =
     (if no_label (req_label p) \<or> running (cap s) then s
      else s\<lparr>admitted := admitted s @ [p]\<rparr>)"

definition commit :: "nat \<Rightarrow> sys_state \<Rightarrow> sys_state" where
  "commit k s =
     (if k < length (admitted s)
      then launch (admitted s ! k)
             (s\<lparr>admitted := take k (admitted s) @ drop (Suc k) (admitted s)\<rparr>)
      else s)"

text \<open>
  The steps of the enrollment workflow, and a run of a sequence of them.  \<open>StartCapture\<close>
  and \<open>Register\<close> are requests whose handler is not interrupted between its test and its
  launch; \<open>Admit\<close> and \<open>Commit\<close> are the halves of a handler that is.
\<close>

datatype event =
    StartCapture start_params
  | Register start_params bool "schedule list"
  | Admit start_params
  | Commit nat
  | StopCapture schedule
  | Delete "string option" delete_env schedule
  | Reload train_env
  | WorkerStep nat step_input

fun apply_event :: "config \<Rightarrow> sys_state \<Rightarrow> event \<Rightarrow> sys_state" where
  "apply_event cfg s (StartCapture p) = snd (api_capture_start p s)"
| "apply_event cfg s (Register p wait_flag sched) = snd (api_register cfg p wait_flag sched s)"
| "apply_event cfg s (Admit p) = admit p s"
| "apply_event cfg s (Commit k) = commit k s"
| "apply_event cfg s (StopCapture sched) = snd (api_capture_stop cfg sched s)"
| "apply_event cfg s (Delete l env sched) = snd (api_delete_label cfg l env sched s)"
| "apply_event cfg s (Reload env) = snd (api_reload cfg env s)"
| "apply_event cfg s (WorkerStep i inp) = worker_step cfg inp i s"

definition exec :: "config \<Rightarrow> event list \<Rightarrow> sys_state" where
  "exec cfg evs = foldl (apply_event cfg) sys_init evs"

section \<open>Feeding the vote window\<close>

text \<open>The window after a run of recognition cycles whose best guesses are \<open>guesses\<close>.\<close>

definition feed :: "config \<Rightarrow> pred list \<Rightarrow> pred list \<Rightarrow> pred list" where
  "feed cfg window guesses = foldl (\<lambda>h p. push_vote cfg True (Some p) h) window guesses"

section \<open>The vote rule in the words of the specification\<close>

text \<open>
  The votes of a label are its entries in the window; its confidences are the non-null
  confidences of those entries; the annotation is their mean.  A label is the top label
  when it is not \<^verbatim>\<open>unknown\<close>, occurs in the window, no other such label has more votes,
  and every such label met before its first entry has strictly fewer votes (the
  first-encountered tie-break).
\<close>

definition spec_votes :: "pred list \<Rightarrow> string \<Rightarrow> nat" where
  "spec_votes window l = length (filter (\<lambda>p. fst p = l) window)"

definition spec_confidences :: "pred list \<Rightarrow> string \<Rightarrow> real list" where
  "spec_confidences window l = List.map_filter (\<lambda>p. if fst p = l then snd p else None) window"

definition spec_annotated :: "(real \<Rightarrow> string) \<Rightarrow> string \<Rightarrow> real list \<Rightarrow> string" where
  "spec_annotated fmt l cs =
     (if cs = [] then l else l @ '' ('' @ fmt (sum_list cs / real (length cs)) @ '')'')"

definition spec_top_label :: "pred list \<Rightarrow> string \<Rightarrow> bool" where
  "spec_top_label window L \<longleftrightarrow>
     L \<noteq> ''unknown'' \<and> L \<in> fst ` set window \<and>
     (\<forall>l\<in>fst ` set window. l \<noteq> ''unknown'' \<longrightarrow> spec_votes window l \<le> spec_votes window L) \<and>
     (\<forall>p\<in>set (takeWhile (\<lambda>p. fst p \<noteq> L) window).
        fst p \<noteq> ''unknown'' \<longrightarrow> spec_votes window (fst p) < spec_votes window L)"

text \<open>
  The same rule on the list of labels other than \<^verbatim>\<open>unknown\<close>: \<open>L\<close> occurs, no label
  occurs more often, and every label before the first \<open>L\<close> occurs less often.
\<close>

definition top_in :: "string list \<Rightarrow> string \<Rightarrow> bool" where
  "top_in labs L \<longleftrightarrow> L \<in> set labs \<and>
     (\<forall>l\<in>set labs. count_list labs l \<le> count_list labs L) \<and>
     (\<forall>l\<in>set (takeWhile (\<lambda>k. k \<noteq> L) labs). count_list labs l < count_list labs L)"

section \<open>Sample inputs\<close>

definition sample_fmt :: "real \<Rightarrow> string" where
  "sample_fmt r = ''#''"

definition sample_predict :: "recognizer \<Rightarrow> box \<Rightarrow> predict_result" where
  "sample_predict m b = (if b = (100, 50, 60, 80) then Predicted 1 7 else Predicted 0 30)"

definition sample_clock :: "nat \<Rightarrow> real" where
  "sample_clock k = 100"

definition sample_env :: frame_env where
  "sample_env =
     \<lparr> detected = [(10, 10, 40, 40), (100, 50, 60, 80)], shape = (480, 640),
       rec = Some (LBPH [0, 1] [0, 1]),
       labels = [(0, ''alice''), (1, ''bob'')],
       predict = sample_predict,
       clock = sample_clock \<rparr>"

definition sample_people :: "person list" where
  "sample_people =
     [\<lparr> label = ''bob'', conf = Some 7, bbox = (100, 50, 60, 80), ts = 99 \<rparr>,
      \<lparr> label = ''unknown'', conf = None, bbox = (10, 10, 40, 40), ts = 90 \<rparr>]"

definition sample_load :: "string \<Rightarrow> load_result" where
  "sample_load path =
     (if path = ''faces/alice/a1.jpg'' then Loaded 1
      else if path = ''faces/alice/a2.JPG'' then Loaded 2
      else if path = ''faces/bob/b1.png'' then Unreadable
      else Load_Raises)"

definition never_raises :: "image list \<Rightarrow> int list \<Rightarrow> bool" where
  "never_raises imgs ids = False"

definition always_raises :: "image list \<Rightarrow> int list \<Rightarrow> bool" where
  "always_raises imgs ids = True"

definition sample_train_env :: train_env where
  "sample_train_env =
     \<lparr> has_contrib = True,
       train_root = \<lparr> root_is_dir = True, root_listable = True,
                      entries = [(''bob'', Files [''b1.png'', ''notes.txt'']),
                                 (''alice'', Files [''a2.JPG'', ''a1.jpg'']),
                                 (''readme.md'', Not_Dir)] \<rparr>,
       load = sample_load,
       train_raises = never_raises \<rparr>"

definition empty_train_env :: train_env where
  "empty_train_env =
     \<lparr> has_contrib = True,
       train_root = \<lparr> root_is_dir = True, root_listable = True,
                      entries = [(''bob'', Files [''b1.png''])] \<rparr>,
       load = sample_load,
       train_raises = never_raises \<rparr>"

definition no_contrib_env :: train_env where
  "no_contrib_env = empty_train_env\<lparr>has_contrib := False\<rparr>"

definition unlistable_env :: train_env where
  "unlistable_env =
     empty_train_env\<lparr>train_root :=
       \<lparr> root_is_dir = True, root_listable = True,
         entries = [(''bob'', Files [''b1.png'']), (''carol'', Unlistable)] \<rparr>\<rparr>"

definition failing_train_env :: train_env where
  "failing_train_env = sample_train_env\<lparr>train_raises := always_raises\<rparr>"

definition sample_recog_state :: recog_state where
  "sample_recog_state =
     \<lparr> recognizer = Some (LBPH [1, 2] [0, 0]), label2id = [(''alice'', 0)],
       id2label = [(0, ''alice'')] \<rparr>"

definition sample_params :: start_params where
  "sample_params =
     \<lparr> req_label = Some ''alice'', req_interval_ms = 200, req_target_count = 1,
       req_face = True, req_retrain = True \<rparr>"

definition sample_input :: step_input where
  "sample_input = \<lparr> save_outcome = Save_File ''faces/alice/a1.jpg'', tenv = sample_train_env \<rparr>"

text \<open>
  A session with a five-second interval, started and with one image saved by its worker,
  which is in the loop; and the steps that let that worker run to its end.
\<close>

definition slow_params :: start_params where
  "slow_params = sample_params\<lparr>req_interval_ms := 5000, req_target_count := 3\<rparr>"

definition capturing_state :: sys_state where
  "capturing_state =
     exec default_config
       [StartCapture slow_params, WorkerStep 0 sample_input, WorkerStep 0 sample_input]"

definition finishing_schedule :: schedule where
  "finishing_schedule =
     [(0, sample_input), (0, sample_input), (0, sample_input), (0, sample_input)]"

text \<open>
  A session that has reached its target of one image, with its worker just past line
  359.
\<close>

definition idle_state :: sys_state where
  "idle_state =
     exec default_config
       [StartCapture sample_params, WorkerStep 0 sample_input, WorkerStep 0 sample_input,
        WorkerStep 0 sample_input, WorkerStep 0 sample_input, WorkerStep 0 sample_input]"

text \<open>One worker step per poll of a waiting register request.\<close>

definition polling_schedule :: "schedule list" where
  "polling_schedule = replicate 8 [(0, sample_input)]"

text \<open>
  Two start requests handled concurrently: both have passed their test of
  \<^verbatim>\<open>running\<close>, and the first has updated the session and started its worker.
\<close>

definition other_params :: start_params where
  "other_params = sample_params\<lparr>req_label := Some ''bob''\<rparr>"

definition racing_state :: sys_state where
  "racing_state = exec default_config [Admit sample_params, Admit other_params, Commit 0]"

text \<open>
  Requests handled one at a time: a session with a five-second interval, a delete of its
  label whose wait for the worker times out, and a start for another label.
\<close>

definition sample_delete_env :: delete_env where
  "sample_delete_env =
     \<lparr> target_is_dir = True, rmtree_raises = False, denv = empty_train_env \<rparr>"

definition overlap_state :: sys_state where
  "overlap_state =
     exec default_config
       [StartCapture slow_params, WorkerStep 0 sample_input, WorkerStep 0 sample_input,
        Delete (Some ''alice'') sample_delete_env [], StartCapture other_params]"

text \<open>
  The session with a five-second interval after a delete of its label whose wait for the
  worker timed out: \<^verbatim>\<open>running\<close> is false and the worker is still in its loop.
\<close>

definition cancelled_state :: sys_state where
  "cancelled_state =
     exec default_config
       [StartCapture slow_params, WorkerStep 0 sample_input, WorkerStep 0 sample_input,
        Delete (Some ''alice'') sample_delete_env []]"

section \<open>Properties of the vote window\<close>

lemma Counter_snoc: "Counter (xs @ [x]) = counter_incr x (Counter xs)"
  by (simp add: Counter_def)

lemma keys_counter_incr:
  "map fst (counter_incr x c) = (if x \<in> fst ` set c then map fst c else map fst c @ [x])"
  by (induction c) force+

lemma keyset_counter_incr: "fst ` set (counter_incr x c) = insert x (fst ` set c)"
proof -
  have "set (map fst (counter_incr x c)) = insert x (fst ` set c)"
    by (subst keys_counter_incr) auto
  then show ?thesis by simp
qed

lemma map_of_counter_incr:
  "map_of (counter_incr x c) = (map_of c)(x \<mapsto> (case map_of c x of None \<Rightarrow> 1 | Some n \<Rightarrow> Suc n))"
  by (induction c) (auto simp: fun_eq_iff)

lemma keys_Counter_both:
  "fst ` set (Counter xs) = set xs \<and> distinct (map fst (Counter xs))"
proof (induction xs rule: rev_induct)
  case Nil
  then show ?case by (simp add: Counter_def)
next
  case (snoc x xs)
  then show ?case by (simp add: Counter_snoc keys_counter_incr keyset_counter_incr)
qed

lemma keys_Counter: "fst ` set (Counter xs) = set xs"
  by (rule keys_Counter_both [THEN conjunct1])

lemma distinct_Counter: "distinct (map fst (Counter xs))"
  by (rule keys_Counter_both [THEN conjunct2])

lemma keys_Counter_snoc:
  "map fst (Counter (xs @ [x])) =
     (if x \<in> set xs then map fst (Counter xs) else map fst (Counter xs) @ [x])"
proof -
  show ?thesis by (simp only: Counter_snoc keys_counter_incr keys_Counter)
qed

lemma map_of_Counter:
  "map_of (Counter xs) k = (if k \<in> set xs then Some (count_list xs k) else None)"
proof (induction xs rule: rev_induct)
  case Nil
  then show ?case by (simp add: Counter_def)
next
  case (snoc x xs)
  then show ?case by (auto simp: Counter_snoc map_of_counter_incr)
qed

lemma Counter_entry: "(k, n) \<in> set (Counter xs) \<Longrightarrow> k \<in> set xs \<and> n = count_list xs k"
proof -
  assume a: "(k, n) \<in> set (Counter xs)"
  have "distinct (map fst (Counter xs))" by (rule distinct_Counter)
  then have "map_of (Counter xs) k = Some n" using a by simp
  then show ?thesis by (simp add: map_of_Counter split: if_splits)
qed

lemma Counter_order:
  "L \<in> set xs \<Longrightarrow>
     set (takeWhile (\<lambda>k. k \<noteq> L) (map fst (Counter xs))) = set (takeWhile (\<lambda>k. k \<noteq> L) xs)"
proof (induction xs rule: rev_induct)
  case Nil
  then show ?case by simp
next
  case (snoc x xs)
  have ks: "fst ` set (Counter xs) = set xs" by (rule keys_Counter)
  show ?case
  proof (cases "L \<in> set xs")
    case True
    then have Lk: "L \<in> set (map fst (Counter xs))" by (simp add: ks)
    have a: "takeWhile (\<lambda>k. k \<noteq> L) (map fst (Counter xs) @ ys) =
             takeWhile (\<lambda>k. k \<noteq> L) (map fst (Counter xs))" for ys
      by (rule takeWhile_append1 [OF Lk]) simp
    have "takeWhile (\<lambda>k. k \<noteq> L) (map fst (Counter (xs @ [x]))) =
               takeWhile (\<lambda>k. k \<noteq> L) (map fst (Counter xs))"
      by (cases "x \<in> set xs") (simp_all only: keys_Counter_snoc if_True if_False a)
    moreover have "takeWhile (\<lambda>k. k \<noteq> L) (xs @ [x]) = takeWhile (\<lambda>k. k \<noteq> L) xs"
      by (rule takeWhile_append1 [OF True]) simp
    ultimately show ?thesis using snoc.IH [OF True] by (simp only:)
  next
    case False
    with snoc.prems have x: "x = L" by simp
    have b: "takeWhile (\<lambda>k. k \<noteq> L) (ys @ [L]) = ys" if "L \<notin> set ys" for ys
      using that by (induction ys) auto
    have "takeWhile (\<lambda>k. k \<noteq> L) (map fst (Counter (xs @ [x]))) = map fst (Counter xs)"
      using False b [of "map fst (Counter xs)"] by (simp add: keys_Counter_snoc x ks)
    moreover have "takeWhile (\<lambda>k. k \<noteq> L) (xs @ [x]) = xs"
      using False b [of xs] by (simp add: x)
    ultimately show ?thesis using ks by simp
  qed
qed

lemma max_by_count_split:
  "\<exists>pre post. best # kvs = pre @ max_by_count best kvs # post \<and>
     (\<forall>kv\<in>set pre. snd kv < snd (max_by_count best kvs)) \<and>
     (\<forall>kv\<in>set post. snd kv \<le> snd (max_by_count best kvs))"
proof (induction kvs arbitrary: best)
  case Nil
  show ?case by (rule exI [of _ "[]"], rule exI [of _ "[]"]) simp
next
  case (Cons kv kvs)
  show ?case
  proof (cases "snd best < snd kv")
    case True
    then have step: "max_by_count best (kv # kvs) = max_by_count kv kvs" by simp
    from Cons.IH [of kv] obtain pre post where
      d: "kv # kvs = pre @ max_by_count kv kvs # post"
      and p: "\<forall>e\<in>set pre. snd e < snd (max_by_count kv kvs)"
      and q: "\<forall>e\<in>set post. snd e \<le> snd (max_by_count kv kvs)" by blast
    have "kv \<in> set (pre @ max_by_count kv kvs # post)" unfolding d [symmetric] by simp
    then have "snd kv \<le> snd (max_by_count kv kvs)" using p q by (auto intro: less_imp_le)
    then have b: "snd best < snd (max_by_count kv kvs)" using True by simp
    show ?thesis unfolding step
      by (rule exI [of _ "best # pre"], rule exI [of _ post]) (use d p q b in simp)
  next
    case False
    then have step: "max_by_count best (kv # kvs) = max_by_count best kvs" by simp
    from Cons.IH [of best] obtain pre post where
      d: "best # kvs = pre @ max_by_count best kvs # post"
      and p: "\<forall>e\<in>set pre. snd e < snd (max_by_count best kvs)"
      and q: "\<forall>e\<in>set post. snd e \<le> snd (max_by_count best kvs)" by blast
    show ?thesis
    proof (cases pre)
      case Nil
      then have m: "max_by_count best kvs = best" and k: "kvs = post"
        using d [symmetric] by simp_all
      show ?thesis unfolding step
        by (rule exI [of _ "[]"], rule exI [of _ "kv # post"]) (use m k q False in auto)
    next
      case (Cons e pre')
      note d' = d [unfolded Cons append_Cons list.inject]
      have e: "e = best" using d' by simp
      have k: "kvs = pre' @ max_by_count best kvs # post" using d' by blast
      have "snd best < snd (max_by_count best kvs)" using p Cons e by simp
      then have kvlt: "snd kv < snd (max_by_count best kvs)" using False by simp
      have pre': "\<forall>e\<in>set (best # pre'). snd e < snd (max_by_count best kvs)"
        using p Cons e by simp
      show ?thesis unfolding step
        by (rule exI [of _ "best # kv # pre'"], rule exI [of _ post])
           (use k q kvlt pre' in simp)
    qed
  qed
qed

lemma first_occurrence_order:
  "L \<in> set xs \<Longrightarrow> L' \<in> set xs \<Longrightarrow> L \<noteq> L' \<Longrightarrow>
     L \<in> set (takeWhile (\<lambda>k. k \<noteq> L') xs) \<or> L' \<in> set (takeWhile (\<lambda>k. k \<noteq> L) xs)"
  by (induction xs) auto

lemma top_unique:
  assumes "L \<in> set xs" "L' \<in> set xs"
    and "\<forall>l\<in>set xs. count_list xs l \<le> count_list xs L"
    and "\<forall>l\<in>set xs. count_list xs l \<le> count_list xs L'"
    and "\<forall>l\<in>set (takeWhile (\<lambda>k. k \<noteq> L) xs). count_list xs l < count_list xs L"
    and "\<forall>l\<in>set (takeWhile (\<lambda>k. k \<noteq> L') xs). count_list xs l < count_list xs L'"
  shows "L = L'"
proof (rule ccontr)
  assume "L \<noteq> L'"
  from first_occurrence_order [OF assms(1,2) this]
  have "count_list xs L < count_list xs L' \<or> count_list xs L' < count_list xs L"
    using assms(5,6) by blast
  moreover have "count_list xs L \<le> count_list xs L'" "count_list xs L' \<le> count_list xs L"
    using assms(1-4) by blast+
  ultimately show False by simp
qed

lemma takeWhile_stop: "L \<notin> set ks \<Longrightarrow> takeWhile (\<lambda>k. k \<noteq> L) (ks @ L # rest) = ks"
  by (induction ks) auto

lemma takeWhile_keys:
  assumes "distinct (map fst (pre @ m # post))"
  shows "takeWhile (\<lambda>k. k \<noteq> fst m) (map fst (pre @ m # post)) = map fst pre"
proof -
  have "fst m \<notin> set (map fst pre)" using assms by auto
  from takeWhile_stop [OF this] show ?thesis by simp
qed

lemma top_of_Counter:
  assumes "labs \<noteq> []"
  shows "\<exists>L. hd (most_common1 (Counter labs)) = (L, count_list labs L) \<and> L \<in> set labs \<and>
           (\<forall>l\<in>set labs. count_list labs l \<le> count_list labs L) \<and>
           (\<forall>l\<in>set (takeWhile (\<lambda>k. k \<noteq> L) labs). count_list labs l < count_list labs L)"
proof -
  have "fst ` set (Counter labs) \<noteq> {}" using assms by (simp add: keys_Counter)
  then obtain kv kvs where c: "Counter labs = kv # kvs" by (cases "Counter labs") auto
  define m where "m = max_by_count kv kvs"
  obtain pre post where d: "kv # kvs = pre @ m # post"
    and p: "\<forall>e\<in>set pre. snd e < snd m" and q: "\<forall>e\<in>set post. snd e \<le> snd m"
    using max_by_count_split [of kv kvs] unfolding m_def by blast
  have cd: "Counter labs = pre @ m # post" using c d by simp
  have hdm: "hd (most_common1 (Counter labs)) = m" by (simp add: most_common1_def c m_def)
  have min: "(fst m, snd m) \<in> set (Counter labs)" unfolding cd by simp
  have mL: "fst m \<in> set labs" by (rule Counter_entry [OF min, THEN conjunct1])
  have mn: "snd m = count_list labs (fst m)" by (rule Counter_entry [OF min, THEN conjunct2])
  have le: "count_list labs l \<le> snd m" if "l \<in> set labs" for l
  proof -
    from that have "l \<in> fst ` set (Counter labs)" by (simp add: keys_Counter)
    then obtain j where j: "(l, j) \<in> set (Counter labs)" by force
    then have "j = count_list labs l" by (rule Counter_entry [THEN conjunct2])
    moreover have "j \<le> snd m" using j p q unfolding cd by (auto intro: less_imp_le)
    ultimately show ?thesis by simp
  qed
  have lt: "count_list labs l < snd m" if "l \<in> set (takeWhile (\<lambda>k. k \<noteq> fst m) labs)" for l
  proof -
    have "set (takeWhile (\<lambda>k. k \<noteq> fst m) labs) =
          set (takeWhile (\<lambda>k. k \<noteq> fst m) (map fst (Counter labs)))"
      using Counter_order [OF mL] by simp
    also have "\<dots> = set (map fst pre)"
      using takeWhile_keys [of pre m post] distinct_Counter [of labs] unfolding cd by simp
    finally have "l \<in> set (map fst pre)" using that by simp
    then obtain j where j: "(l, j) \<in> set pre" by force
    then have "(l, j) \<in> set (Counter labs)" unfolding cd by simp
    then have "j = count_list labs l" by (rule Counter_entry [THEN conjunct2])
    moreover have "j < snd m" using j p by force
    ultimately show ?thesis by simp
  qed
  have "hd (most_common1 (Counter labs)) = (fst m, count_list labs (fst m))"
    using hdm mn by (simp add: prod_eq_iff)
  then show ?thesis using mL le lt mn by (intro exI [of _ "fst m"]) simp
qed

lemma count_labels_in_window:
  "l \<noteq> ''unknown'' \<Longrightarrow> count_list (labels_in_window h) l = spec_votes h l"
  by (induction h) (auto simp: labels_in_window_def spec_votes_def)

lemma set_labels_in_window: "set (labels_in_window h) = fst ` set h - {''unknown''}"
  by (auto simp: labels_in_window_def)

lemma takeWhile_labels_in_window:
  "L \<noteq> ''unknown'' \<Longrightarrow>
     takeWhile (\<lambda>k. k \<noteq> L) (labels_in_window h) =
     labels_in_window (takeWhile (\<lambda>p. fst p \<noteq> L) h)"
  by (induction h) (auto simp: labels_in_window_def)

lemma confs_of_spec: "confs_of h L = spec_confidences h L"
  by (induction h) (auto simp: confs_of_def spec_confidences_def map_filter_simps)

lemma annotate_spec: "annotate fmt L cs = spec_annotated fmt L cs"
  by (simp add: annotate_def spec_annotated_def np_mean_def)

lemma spec_top_label_iff:
  "spec_top_label h L \<longleftrightarrow> top_in (labels_in_window h) L"
proof (cases "L = ''unknown''")
  case True
  then show ?thesis by (simp add: spec_top_label_def top_in_def set_labels_in_window)
next
  case False
  have a: "(\<forall>l\<in>set (labels_in_window h).
              count_list (labels_in_window h) l \<le> count_list (labels_in_window h) L) \<longleftrightarrow>
           (\<forall>l\<in>fst ` set h. l \<noteq> ''unknown'' \<longrightarrow> spec_votes h l \<le> spec_votes h L)"
    using False by (auto simp: set_labels_in_window count_labels_in_window)
  have b: "(\<forall>l\<in>set (takeWhile (\<lambda>k. k \<noteq> L) (labels_in_window h)).
              count_list (labels_in_window h) l < count_list (labels_in_window h) L) \<longleftrightarrow>
           (\<forall>p\<in>set (takeWhile (\<lambda>p. fst p \<noteq> L) h).
              fst p \<noteq> ''unknown'' \<longrightarrow> spec_votes h (fst p) < spec_votes h L)"
    using False
    by (auto simp: takeWhile_labels_in_window set_labels_in_window count_labels_in_window)
  show ?thesis
    unfolding spec_top_label_def top_in_def a b using False
    by (auto simp: set_labels_in_window)
qed

lemma final_text_top:
  assumes "top_in (labels_in_window h) L"
  shows "final_text fmt cfg h =
           (if VOTE_REQUIRE cfg \<le> int (count_list (labels_in_window h) L)
            then annotate fmt L (confs_of h L) else ''unknown'')"
proof -
  have ne: "labels_in_window h \<noteq> []" using assms by (auto simp: top_in_def)
  from top_of_Counter [OF ne] obtain L' where
    hd: "hd (most_common1 (Counter (labels_in_window h))) =
           (L', count_list (labels_in_window h) L')"
    and t: "top_in (labels_in_window h) L'" unfolding top_in_def by blast
  have "L' = L" using t assms unfolding top_in_def by (intro top_unique) blast+
  then show ?thesis using hd ne by (simp add: final_text_def Let_def)
qed

lemma drop_window:
  "drop (length (drop (length xs - n) xs @ ys) - n) (drop (length xs - n) xs @ ys) =
   drop (length (xs @ ys) - n) (xs @ ys)"
proof (cases "length xs \<le> n")
  case True
  then show ?thesis by simp
next
  case False
  then have "length (drop (length xs - n) xs) = n" by simp
  then show ?thesis using False by (simp add: drop_append add.commute)
qed

lemma feed_window:
  "feed cfg h gs =
     (if gs = [] then h else drop (length (h @ gs) - pred_hist_maxlen cfg) (h @ gs))"
proof (induction gs arbitrary: h)
  case Nil
  then show ?case by (simp add: feed_def)
next
  case (Cons g gs)
  have step: "feed cfg h (g # gs) =
              feed cfg (drop (length (h @ [g]) - pred_hist_maxlen cfg) (h @ [g])) gs"
    by (simp add: feed_def push_vote_def deque_append_def Let_def)
  show ?case
  proof (cases "gs = []")
    case True
    then show ?thesis unfolding step by (simp add: feed_def)
  next
    case False
    then show ?thesis
      unfolding step Cons.IH using drop_window [of "h @ [g]" "pred_hist_maxlen cfg" gs]
      by simp
  qed
qed


text \<open>
  Claim C1.  If every entry of the vote window is \<^verbatim>\<open>unknown\<close>, the smoothed label is
  \<^verbatim>\<open>unknown\<close>.  Otherwise the window has a top label: the most frequent label other than
  \<^verbatim>\<open>unknown\<close>, ties broken by first-encountered order; the smoothed label is that label,
  annotated with the mean of its non-null confidences (no annotation when it has none),
  when its votes reach \<^verbatim>\<open>VOTE_REQUIRE\<close>, and \<^verbatim>\<open>unknown\<close> otherwise.  With a window of 5
  and 3 required votes, feeding \<open>A, A, A, B, B\<close> yields \<open>A\<close> and feeding five distinct
  labels yields \<^verbatim>\<open>unknown\<close>, whatever the window held before.
\<close>

theorem vote_smoothing:
  "((\<forall>p\<in>set h. fst p = ''unknown'') \<longrightarrow> final_text fmt cfg h = ''unknown'') \<and>
   ((\<exists>p\<in>set h. fst p \<noteq> ''unknown'') \<longrightarrow> (\<exists>L. spec_top_label h L)) \<and>
   (\<forall>L. spec_top_label h L \<longrightarrow>
      final_text fmt cfg h =
        (if VOTE_REQUIRE cfg \<le> int (spec_votes h L)
         then spec_annotated fmt L (spec_confidences h L) else ''unknown'')) \<and>
   (VOTE_WINDOW cfg = 5 \<and> VOTE_REQUIRE cfg = 3 \<and> distinct [A, B, C, D, E, ''unknown''] \<longrightarrow>
      final_text fmt cfg (feed cfg h [(A, c1), (A, c2), (A, c3), (B, c4), (B, c5)]) =
        spec_annotated fmt A (List.map_filter (\<lambda>c. c) [c1, c2, c3]) \<and>
      final_text fmt cfg (feed cfg h [(A, c1), (B, c2), (C, c3), (D, c4), (E, c5)]) =
        ''unknown'')"
proof (intro conjI impI allI)
  assume "\<forall>p\<in>set h. fst p = ''unknown''"
  then have "labels_in_window h = []" by (simp add: labels_in_window_def filter_empty_conv)
  then show "final_text fmt cfg h = ''unknown''" by (simp add: final_text_def)
next
  assume "\<exists>p\<in>set h. fst p \<noteq> ''unknown''"
  then have "labels_in_window h \<noteq> []" by (simp add: labels_in_window_def filter_empty_conv)
  from top_of_Counter [OF this] have "\<exists>L. top_in (labels_in_window h) L"
    unfolding top_in_def by blast
  then show "\<exists>L. spec_top_label h L" by (simp add: spec_top_label_iff)
next
  fix L
  assume t: "spec_top_label h L"
  then have "L \<noteq> ''unknown''" by (simp add: spec_top_label_def)
  then show "final_text fmt cfg h =
        (if VOTE_REQUIRE cfg \<le> int (spec_votes h L)
         then spec_annotated fmt L (spec_confidences h L) else ''unknown'')"
    using final_text_top [of h L fmt cfg] t
    by (simp add: spec_top_label_iff count_labels_in_window confs_of_spec annotate_spec)
next
  assume a: "VOTE_WINDOW cfg = 5 \<and> VOTE_REQUIRE cfg = 3 \<and> distinct [A, B, C, D, E, ''unknown'']"
  then have w: "feed cfg h [(A, c1), (A, c2), (A, c3), (B, c4), (B, c5)] =
                [(A, c1), (A, c2), (A, c3), (B, c4), (B, c5)]"
    by (simp add: feed_window pred_hist_maxlen_def)
  have t: "spec_top_label [(A, c1), (A, c2), (A, c3), (B, c4), (B, c5)] A"
    using a by (auto simp: spec_top_label_def spec_votes_def)
  have s: "B \<noteq> A" using a by auto
  show "final_text fmt cfg (feed cfg h [(A, c1), (A, c2), (A, c3), (B, c4), (B, c5)]) =
        spec_annotated fmt A (List.map_filter (\<lambda>c. c) [c1, c2, c3])"
    unfolding w using final_text_top [of "[(A, c1), (A, c2), (A, c3), (B, c4), (B, c5)]" A fmt cfg]
      t a s
    by (simp add: spec_top_label_iff count_labels_in_window confs_of_spec annotate_spec
        spec_votes_def spec_confidences_def map_filter_simps split: option.splits)
next
  assume a: "VOTE_WINDOW cfg = 5 \<and> VOTE_REQUIRE cfg = 3 \<and> distinct [A, B, C, D, E, ''unknown'']"
  then have w: "feed cfg h [(A, c1), (B, c2), (C, c3), (D, c4), (E, c5)] =
                [(A, c1), (B, c2), (C, c3), (D, c4), (E, c5)]"
    by (simp add: feed_window pred_hist_maxlen_def)
  have t: "spec_top_label [(A, c1), (B, c2), (C, c3), (D, c4), (E, c5)] A"
    using a by (auto simp: spec_top_label_def spec_votes_def)
  have s: "B \<noteq> A" "C \<noteq> A" "D \<noteq> A" "E \<noteq> A" using a by auto
  show "final_text fmt cfg (feed cfg h [(A, c1), (B, c2), (C, c3), (D, c4), (E, c5)]) =
        ''unknown''"
    unfolding w using final_text_top [of "[(A, c1), (B, c2), (C, c3), (D, c4), (E, c5)]" A fmt cfg]
      t a s
    by (simp add: spec_top_label_iff count_labels_in_window spec_votes_def)
qed

theorem vote_smoothing_witness:
  "final_text sample_fmt default_config [(''unknown'', None)] = ''unknown'' \<and>
   spec_top_label [(''A'', Some 10), (''A'', Some 12), (''A'', None), (''B'', Some 3),
                   (''B'', None)] ''A'' \<and>
   final_text sample_fmt default_config
     [(''A'', Some 10), (''A'', Some 12), (''A'', None), (''B'', Some 3), (''B'', None)] =
     ''A (#)'' \<and>
   final_text sample_fmt default_config
     (feed default_config [(''unknown'', None)]
        [(''A'', Some 10), (''A'', Some 12), (''A'', None), (''B'', Some 3), (''B'', None)]) =
     ''A (#)'' \<and>
   final_text sample_fmt default_config
     (feed default_config
        [(''A'', Some 10), (''A'', Some 12), (''A'', None), (''B'', Some 3), (''B'', None)]
        [(''A'', None), (''B'', None), (''C'', None), (''D'', None), (''E'', None)]) =
     ''unknown''"
proof -
  have t: "spec_top_label [(''A'', Some 10), (''A'', Some 12), (''A'', None), (''B'', Some 3),
                           (''B'', None)] ''A''"
    by (simp add: spec_top_label_def spec_votes_def)
  have c: "VOTE_WINDOW default_config = 5 \<and> VOTE_REQUIRE default_config = 3 \<and>
           distinct [''A'', ''B'', ''C'', ''D'', ''E'', ''unknown'']"
    by (simp add: default_config_def)
  note v1 = vote_smoothing [of "[(''unknown'', None)]" sample_fmt default_config
      "''A''" "''B''" "''C''" "''D''" "''E''" "Some 10" "Some 12" None]
  note v2 = vote_smoothing [of "[(''A'', Some 10), (''A'', Some 12), (''A'', None),
      (''B'', Some 3), (''B'', None)]" sample_fmt default_config
      "''A''" "''B''" "''C''" "''D''" "''E''" None None None None None]
  have a: "final_text sample_fmt default_config [(''unknown'', None)] = ''unknown''"
    using v1 by simp
  have b: "final_text sample_fmt default_config
             [(''A'', Some 10), (''A'', Some 12), (''A'', None), (''B'', Some 3), (''B'', None)] =
           ''A (#)''"
    using v2 [THEN conjunct2, THEN conjunct2, THEN conjunct1, rule_format, OF t]
    by (simp add: default_config_def spec_votes_def spec_confidences_def map_filter_simps
        spec_annotated_def sample_fmt_def)
  have d: "final_text sample_fmt default_config
             (feed default_config [(''unknown'', None)]
                [(''A'', Some 10), (''A'', Some 12), (''A'', None), (''B'', Some 3),
                 (''B'', None)]) = ''A (#)''"
    using v1 [THEN conjunct2, THEN conjunct2, THEN conjunct2, rule_format, OF c,
        THEN conjunct1, of "Some 3" None]
    by (simp add: map_filter_simps spec_annotated_def sample_fmt_def)
  have e: "final_text sample_fmt default_config
             (feed default_config
                [(''A'', Some 10), (''A'', Some 12), (''A'', None), (''B'', Some 3),
                 (''B'', None)]
                [(''A'', None), (''B'', None), (''C'', None), (''D'', None), (''E'', None)]) =
           ''unknown''"
    using v2 [THEN conjunct2, THEN conjunct2, THEN conjunct2, rule_format, OF c,
        THEN conjunct2]
    by simp
  show ?thesis using a t b d e by simp
qed

section \<open>Properties of the pipeline cycle\<close>

lemma cycle_log_simps:
  "cycle_idx (fst (cycle fmt cfg env st)) = frame_idx st + 1"
  "detect_called (fst (cycle fmt cfg env st)) = do_detect cfg (frame_idx st + 1)"
  "recog_cycle (fst (cycle fmt cfg env st)) = do_recog cfg (frame_idx st + 1)"
  "frame_idx (snd (cycle fmt cfg env st)) = frame_idx st + 1"
  "faces_fullres (snd (cycle fmt cfg env st)) =
     (if do_detect cfg (frame_idx st + 1) then detected env else faces_fullres st)"
  by (simp_all add: cycle_def Let_def)



lemma recognize_box_cases:
  "recognize_box cfg env recog b = ((''unknown'', None), False) \<or>
   (\<exists>m. rec env = Some m \<and> recog \<and>
      RECOG_MIN_SIDE cfg \<le> min (fst (snd (snd b))) (snd (snd (snd b))) \<and>
      0 < crop_size (shape env) b \<and>
      (predict env m b = Predict_Raises \<and>
         recognize_box cfg env recog b = ((''unknown'', None), True) \<or>
       (\<exists>pid c. predict env m b = Predicted pid c \<and>
          (c \<le> RECOG_THRESHOLD cfg \<and> pid \<in> fst ` set (labels env) \<and>
             recognize_box cfg env recog b = ((the (map_of (labels env) pid), Some c), True) \<or>
           recognize_box cfg env recog b = ((''unknown'', Some c), True)))))"
proof (cases b)
  case (fields x0 y0 w0 h0)
  show ?thesis
  proof (cases "rec env")
    case None
    then show ?thesis by (simp add: recognize_box_def fields)
  next
    case (Some m)
    show ?thesis
    proof (cases "predict env m b")
      case Predict_Raises
      then show ?thesis using Some by (simp add: recognize_box_def fields Let_def)
    next
      case (Predicted pid c)
      then show ?thesis using Some by (simp add: recognize_box_def fields Let_def)
    qed
  qed
qed

lemma recognize_box_called:
  "snd (recognize_box cfg env recog b) \<Longrightarrow>
     rec env \<noteq> None \<and> recog \<and> RECOG_MIN_SIDE cfg \<le> min (fst (snd (snd b))) (snd (snd (snd b)))"
  using recognize_box_cases [of cfg env recog b] by auto

lemma map_of_the: "(k, v) \<in> set kvs \<Longrightarrow> map_of kvs k = Some (the (map_of kvs k))"
  by (cases "map_of kvs k") (force simp: map_of_eq_None_iff)+

lemma recognize_box_named:
  "fst (fst (recognize_box cfg env recog b)) \<noteq> ''unknown'' \<Longrightarrow>
     \<exists>m pid c. rec env = Some m \<and> recog \<and> snd (recognize_box cfg env recog b) \<and>
       predict env m b = Predicted pid c \<and> c \<le> RECOG_THRESHOLD cfg \<and>
       map_of (labels env) pid = Some (fst (fst (recognize_box cfg env recog b))) \<and>
       snd (fst (recognize_box cfg env recog b)) = Some c"
  using recognize_box_cases [of cfg env recog b] by (auto intro: map_of_the)

lemma zip_map_same: "zip xs (map f xs) = map (\<lambda>x. (x, f x)) xs"
  by (induction xs) auto

lemma map_enumerate_map:
  "map g (enumerate n (map f xs)) = map (\<lambda>(k, x). g (k, f x)) (enumerate n xs)"
  by (induction xs arbitrary: n) auto

lemma cycle_people:
  "current_people (snd (cycle fmt cfg env st)) =
     map (\<lambda>(k, b). \<lparr> label = fst (fst (recognize_box cfg env (do_recog cfg (frame_idx st + 1)) b)),
                      conf = snd (fst (recognize_box cfg env (do_recog cfg (frame_idx st + 1)) b)),
                      bbox = b, ts = clock env k \<rparr>)
       (enumerate 0 (faces_iter (faces_fullres (snd (cycle fmt cfg env st)))))"
  by (simp add: cycle_def Let_def zip_map_same map_enumerate_map split_beta)

lemma cycle_calls:
  "predict_calls (fst (cycle fmt cfg env st)) =
     filter (\<lambda>b. snd (recognize_box cfg env (do_recog cfg (frame_idx st + 1)) b))
       (faces_iter (faces_fullres (snd (cycle fmt cfg env st))))"
  by (simp add: cycle_def Let_def zip_map_same filter_map comp_def)

lemma set_faces_iter: "set (faces_iter bs) = set bs"
  by (simp add: faces_iter_def)

text \<open>
  Claim C2.  In every cycle, every box for which \<^verbatim>\<open>predict\<close> is called is one of the
  cycle's boxes, a model is loaded, the cycle is a recognition cycle and the shorter side
  of the box is at least \<^verbatim>\<open>RECOG_MIN_SIDE\<close>.  Every reported box whose label is not
  \<^verbatim>\<open>unknown\<close> was sent to \<^verbatim>\<open>predict\<close>, the returned distance is at most
  \<^verbatim>\<open>RECOG_THRESHOLD\<close>, and the predicted id is a key of the label snapshot, whose value
  is the label; every other reported box is \<^verbatim>\<open>unknown\<close>.  All boxes are reported, in
  order of decreasing area.
\<close>

theorem recognition_gate:
  "(\<forall>(x0, y0, w0, h0)\<in>set (predict_calls (fst (cycle fmt cfg env st))).
      rec env \<noteq> None \<and> recog_cycle (fst (cycle fmt cfg env st)) \<and>
      RECOG_MIN_SIDE cfg \<le> min w0 h0 \<and>
      (x0, y0, w0, h0) \<in> set (faces_fullres (snd (cycle fmt cfg env st)))) \<and>
   (\<forall>p\<in>set (current_people (snd (cycle fmt cfg env st))).
      label p \<noteq> ''unknown'' \<longrightarrow>
        bbox p \<in> set (predict_calls (fst (cycle fmt cfg env st))) \<and>
        (\<exists>m pid c. rec env = Some m \<and> predict env m (bbox p) = Predicted pid c \<and>
           c \<le> RECOG_THRESHOLD cfg \<and> map_of (labels env) pid = Some (label p))) \<and>
   map bbox (current_people (snd (cycle fmt cfg env st))) =
     faces_iter (faces_fullres (snd (cycle fmt cfg env st)))"
proof (intro conjI ballI impI)
  fix b
  assume "b \<in> set (predict_calls (fst (cycle fmt cfg env st)))"
  then have s: "snd (recognize_box cfg env (do_recog cfg (frame_idx st + 1)) b)"
    and m: "b \<in> set (faces_fullres (snd (cycle fmt cfg env st)))"
    by (simp_all add: cycle_calls set_faces_iter)
  from recognize_box_called [OF s] m
  show "case b of (x0, y0, w0, h0) \<Rightarrow>
          rec env \<noteq> None \<and> recog_cycle (fst (cycle fmt cfg env st)) \<and>
          RECOG_MIN_SIDE cfg \<le> min w0 h0 \<and>
          (x0, y0, w0, h0) \<in> set (faces_fullres (snd (cycle fmt cfg env st)))"
    by (cases b) (simp add: cycle_log_simps)
next
  fix p
  assume p: "p \<in> set (current_people (snd (cycle fmt cfg env st)))"
    and n: "label p \<noteq> ''unknown''"
  from p obtain kb where
    kb: "kb \<in> set (enumerate 0 (faces_iter (faces_fullres (snd (cycle fmt cfg env st)))))"
    and pk: "p = \<lparr> label = fst (fst (recognize_box cfg env (do_recog cfg (frame_idx st + 1))
                                    (snd kb))),
                  conf = snd (fst (recognize_box cfg env (do_recog cfg (frame_idx st + 1))
                                    (snd kb))),
                  bbox = snd kb, ts = clock env (fst kb) \<rparr>"
    unfolding cycle_people by (auto simp: split_beta)
  define b where "b = snd kb"
  define k where "k = fst kb"
  have b: "b \<in> set (faces_iter (faces_fullres (snd (cycle fmt cfg env st))))"
    using kb unfolding b_def by (metis in_set_enumerate_eq nth_mem diff_zero add_0_right)
  have pe: "p = \<lparr> label = fst (fst (recognize_box cfg env (do_recog cfg (frame_idx st + 1)) b)),
                  conf = snd (fst (recognize_box cfg env (do_recog cfg (frame_idx st + 1)) b)),
                  bbox = b, ts = clock env k \<rparr>"
    using pk unfolding b_def k_def by simp
  have nb: "fst (fst (recognize_box cfg env (do_recog cfg (frame_idx st + 1)) b)) \<noteq> ''unknown''"
    using n pe by simp
  from recognize_box_named [OF nb] obtain m pid c where
    r: "rec env = Some m" "snd (recognize_box cfg env (do_recog cfg (frame_idx st + 1)) b)"
       "predict env m b = Predicted pid c" "c \<le> RECOG_THRESHOLD cfg"
       "map_of (labels env) pid =
          Some (fst (fst (recognize_box cfg env (do_recog cfg (frame_idx st + 1)) b)))"
    by blast
  show "bbox p \<in> set (predict_calls (fst (cycle fmt cfg env st)))"
    using b r(2) by (simp add: cycle_calls pe)
  show "\<exists>m pid c. rec env = Some m \<and> predict env m (bbox p) = Predicted pid c \<and>
           c \<le> RECOG_THRESHOLD cfg \<and> map_of (labels env) pid = Some (label p)"
    using r by (simp add: pe)
next
  show "map bbox (current_people (snd (cycle fmt cfg env st))) =
          faces_iter (faces_fullres (snd (cycle fmt cfg env st)))"
    unfolding cycle_people by (simp add: split_beta comp_def enumerate_eq_zip)
qed


theorem recognition_gate_witness:
  "predict_calls (fst (cycle sample_fmt default_config sample_env (loop_init\<lparr>frame_idx := 1\<rparr>)))
     = [(100, 50, 60, 80)] \<and>
   map label (current_people
       (snd (cycle sample_fmt default_config sample_env (loop_init\<lparr>frame_idx := 1\<rparr>))))
     = [''bob'', ''unknown''] \<and>
   rec sample_env \<noteq> None \<and>
   recog_cycle (fst (cycle sample_fmt default_config sample_env (loop_init\<lparr>frame_idx := 1\<rparr>))) \<and>
   RECOG_MIN_SIDE default_config \<le> min 60 80 \<and>
   (\<exists>m pid c. rec sample_env = Some m \<and>
      predict sample_env m (100, 50, 60, 80) = Predicted pid c \<and>
      c \<le> RECOG_THRESHOLD default_config \<and> map_of (labels sample_env) pid = Some ''bob'')"
proof -
  let ?c = "cycle sample_fmt default_config sample_env (loop_init\<lparr>frame_idx := 1\<rparr>)"
  have calls: "predict_calls (fst ?c) = [(100, 50, 60, 80)]"
    by code_simp
  have people: "current_people (snd ?c) =
      [\<lparr> label = ''bob'', conf = Some 7, bbox = (100, 50, 60, 80), ts = 100 \<rparr>,
       \<lparr> label = ''unknown'', conf = None, bbox = (10, 10, 40, 40), ts = 100 \<rparr>]"
    by code_simp
  note g = recognition_gate [of sample_fmt default_config sample_env "loop_init\<lparr>frame_idx := 1\<rparr>"]
  have a: "rec sample_env \<noteq> None \<and> recog_cycle (fst ?c) \<and>
           RECOG_MIN_SIDE default_config \<le> min 60 80"
    using g [THEN conjunct1] unfolding calls by simp
  have b: "\<exists>m pid c. rec sample_env = Some m \<and>
      predict sample_env m (100, 50, 60, 80) = Predicted pid c \<and>
      c \<le> RECOG_THRESHOLD default_config \<and> map_of (labels sample_env) pid = Some ''bob''"
    using g [THEN conjunct2, THEN conjunct1] unfolding people by simp
  show ?thesis using calls people a b by simp
qed

lemma api_current_filter:
  "api_current cfg now ps = filter (\<lambda>p. now - ts p \<le> CURRENT_EXPIRE_SEC cfg) ps"
  by (induction ps) auto

text \<open>
  Claim C9.  For every published people list and every query time, the answer of
  \<^verbatim>\<open>api_current\<close> holds exactly the entries with \<open>now - ts \<le> CURRENT_EXPIRE_SEC\<close>, each
  as often as it is published, and in the published order.
\<close>

theorem current_people_expiry:
  "(\<forall>p. p \<in> set (api_current cfg now ps) \<longleftrightarrow>
         p \<in> set ps \<and> now - ts p \<le> CURRENT_EXPIRE_SEC cfg) \<and>
   (\<forall>p. count_list (api_current cfg now ps) p =
         (if now - ts p \<le> CURRENT_EXPIRE_SEC cfg then count_list ps p else 0)) \<and>
   subseq (api_current cfg now ps) ps"
proof -
  have "count_list (filter P xs) x = (if P x then count_list xs x else 0)"
    for P and xs :: "person list" and x
    by (induction xs) auto
  then show ?thesis by (simp add: api_current_filter)
qed

theorem current_people_expiry_witness:
  "api_current default_config 100 sample_people =
     [\<lparr> label = ''bob'', conf = Some 7, bbox = (100, 50, 60, 80), ts = 99 \<rparr>] \<and>
   \<lparr> label = ''bob'', conf = Some 7, bbox = (100, 50, 60, 80), ts = 99 \<rparr> \<in> set sample_people \<and>
   (100 :: real) - 99 \<le> CURRENT_EXPIRE_SEC default_config \<and>
   \<not> (100 :: real) - 90 \<le> CURRENT_EXPIRE_SEC default_config \<and>
   subseq (api_current default_config 100 sample_people) sample_people"
proof -
  have r: "api_current default_config 100 sample_people =
     [\<lparr> label = ''bob'', conf = Some 7, bbox = (100, 50, 60, 80), ts = 99 \<rparr>]"
    by (simp add: default_config_def sample_people_def)
  have c: "(100 :: real) - 99 \<le> CURRENT_EXPIRE_SEC default_config \<and>
           \<not> (100 :: real) - 90 \<le> CURRENT_EXPIRE_SEC default_config"
    by (simp add: default_config_def)
  note e = current_people_expiry [of default_config 100 sample_people]
  have m: "\<lparr> label = ''bob'', conf = Some 7, bbox = (100, 50, 60, 80), ts = 99 \<rparr>
             \<in> set sample_people"
    using e [THEN conjunct1, rule_format,
        of "\<lparr> label = ''bob'', conf = Some 7, bbox = (100, 50, 60, 80), ts = 99 \<rparr>"]
    unfolding r by simp
  show ?thesis using r c m e [THEN conjunct2, THEN conjunct2] by simp
qed

section \<open>The decimation schedule\<close>










section \<open>Properties of training and reload\<close>

lemma sample_paths:
  "iter_face_paths ''faces'' (train_root sample_train_env) =
     Inr [(''alice'', ''faces/alice/a1.jpg''), (''alice'', ''faces/alice/a2.JPG''),
          (''bob'', ''faces/bob/b1.png'')]"
  by code_simp

lemma sample_training:
  "train_recognizer_from_dir default_config sample_train_env =
     Inr (Some (LBPH [1, 2] [0, 0]), [(''alice'', 0)], [(0, ''alice'')])"
  by code_simp

lemma failing_training:
  "train_recognizer_from_dir default_config failing_train_env = Inl TrainingError"
  by code_simp

lemma empty_paths:
  "iter_face_paths (RECOG_DATA_DIR default_config) (train_root empty_train_env) =
     Inr [(''bob'', ''faces/bob/b1.png'')]"
  by code_simp

text \<open>
  Claim C10.  When training raises during a reload, \<^verbatim>\<open>reload_recognizer\<close> returns false
  and the active model and both label maps are as before; the reload request answers
  with status 500 and leaves the process state as it was.  The three globals change
  only when training returns, and then to what it returned.
\<close>

theorem reload_failure_keeps_state:
  "(train_recognizer_from_dir cfg env = Inl e \<longrightarrow>
      reload_recognizer cfg env rs = (False, rs) \<and>
      snd (api_reload cfg env s) = s \<and> status (fst (api_reload cfg env s)) = 500) \<and>
   (\<not> fst (reload_recognizer cfg env rs) \<longrightarrow>
      (\<exists>e'. train_recognizer_from_dir cfg env = Inl e') \<and>
      snd (reload_recognizer cfg env rs) = rs) \<and>
   (fst (reload_recognizer cfg env rs) \<longrightarrow>
      (\<exists>r a b. train_recognizer_from_dir cfg env = Inr (r, a, b) \<and>
         snd (reload_recognizer cfg env rs) =
           \<lparr> recognizer = r, label2id = a, id2label = b \<rparr>))"
  by (cases "train_recognizer_from_dir cfg env")
     (auto simp: reload_recognizer_def api_reload_def)

theorem reload_failure_keeps_state_witness:
  "train_recognizer_from_dir default_config failing_train_env = Inl TrainingError \<and>
   reload_recognizer default_config failing_train_env sample_recog_state =
     (False, sample_recog_state) \<and>
   fst (reload_recognizer default_config sample_train_env recog_init) \<and>
   snd (reload_recognizer default_config sample_train_env recog_init) = sample_recog_state"
proof -
  note f = reload_failure_keeps_state [of default_config failing_train_env TrainingError
      sample_recog_state sys_init,
      THEN conjunct1, rule_format, OF failing_training, THEN conjunct1]
  have succ: "fst (reload_recognizer default_config sample_train_env recog_init)"
    by (simp add: reload_recognizer_def sample_training)
  note g = reload_failure_keeps_state [of default_config sample_train_env TrainingError
      recog_init sys_init, THEN conjunct2, THEN conjunct2, rule_format, OF succ]
  show ?thesis
    using f g succ failing_training by (simp add: sample_training sample_recog_state_def)
qed

lemma scan_nothing_loaded:
  "\<forall>pair\<in>set pairs. \<forall>img. ld (snd pair) \<noteq> Loaded img \<Longrightarrow>
     foldl (scan_one ld) sc pairs = sc"
proof (induction pairs arbitrary: sc)
  case Nil
  then show ?case by simp
next
  case (Cons pair pairs)
  then have "scan_one ld sc pair = sc"
    by (cases pair; cases "ld (snd pair)") (auto simp: scan_one_def)
  then show ?case using Cons by simp
qed

lemma null_model_unknown:
  "rec env = None \<Longrightarrow> recognize_box cfg env recog b = ((''unknown'', None), False)"
  by (cases b) (simp add: recognize_box_def)


lemma map_snd_enumerate_fun: "map (\<lambda>kx. f (snd kx)) (enumerate n xs) = map f xs"
  by (induction xs arbitrary: n) auto

lemma cycle_people_labels:
  "map label (current_people (snd (cycle fmt cfg env st))) =
     map (\<lambda>b. fst (fst (recognize_box cfg env (do_recog cfg (frame_idx st + 1)) b)))
       (faces_iter (faces_fullres (snd (cycle fmt cfg env st))))"
  "map conf (current_people (snd (cycle fmt cfg env st))) =
     map (\<lambda>b. snd (fst (recognize_box cfg env (do_recog cfg (frame_idx st + 1)) b)))
       (faces_iter (faces_fullres (snd (cycle fmt cfg env st))))"
  by (simp_all add: cycle_people split_beta comp_def) (rule map_snd_enumerate_fun)+

text \<open>
  Claim C8, as the code has it.  Let the training root hold no readable labelled image:
  no path the scan yields loads to an image.  If recognition is disabled, or the OpenCV
  \<^verbatim>\<open>face\<close> module is present and the root and its label directories can be listed, the
  reload succeeds and installs the null model with empty label maps; in every cycle that
  takes its snapshot from that state, \<^verbatim>\<open>predict\<close> is never called and every reported
  box is \<^verbatim>\<open>unknown\<close> without a confidence.
\<close>

theorem empty_training_reload:
  "(\<not> ENABLE_RECOG cfg \<or>
    has_contrib env \<and>
    iter_face_paths (RECOG_DATA_DIR cfg) (train_root env) = Inr pairs \<and>
    (\<forall>(l, path)\<in>set pairs. \<forall>img. load env path \<noteq> Loaded img)) \<longrightarrow>
   reload_recognizer cfg env rs = (True, \<lparr> recognizer = None, label2id = [], id2label = [] \<rparr>) \<and>
   predict_calls (fst (cycle fmt cfg (snapshot (snd (reload_recognizer cfg env rs)) fenv) st))
     = [] \<and>
   (\<forall>p\<in>set (current_people
               (snd (cycle fmt cfg (snapshot (snd (reload_recognizer cfg env rs)) fenv) st))).
      label p = ''unknown'' \<and> conf p = None)"
proof (intro impI)
  assume a: "\<not> ENABLE_RECOG cfg \<or>
    has_contrib env \<and>
    iter_face_paths (RECOG_DATA_DIR cfg) (train_root env) = Inr pairs \<and>
    (\<forall>(l, path)\<in>set pairs. \<forall>img. load env path \<noteq> Loaded img)"
  have t: "train_recognizer_from_dir cfg env = Inr (None, [], [])"
  proof (cases "ENABLE_RECOG cfg")
    case False
    then show ?thesis by (simp add: train_recognizer_from_dir_def)
  next
    case True
    with a have c: "has_contrib env"
      and i: "iter_face_paths (RECOG_DATA_DIR cfg) (train_root env) = Inr pairs"
      and n: "\<forall>(l, path)\<in>set pairs. \<forall>img. load env path \<noteq> Loaded img"
      by simp_all
    from n have "\<forall>pair\<in>set pairs. \<forall>img. load env (snd pair) \<noteq> Loaded img"
      by (auto simp: split_beta)
    from scan_nothing_loaded [OF this]
    have "foldl (scan_one (load env)) scan_init pairs = scan_init" .
    then show ?thesis
      using True c i by (simp add: train_recognizer_from_dir_def scan_init_def)
  qed
  then have r: "reload_recognizer cfg env rs =
                  (True, \<lparr> recognizer = None, label2id = [], id2label = [] \<rparr>)"
    by (simp add: reload_recognizer_def)
  let ?env = "snapshot (snd (reload_recognizer cfg env rs)) fenv"
  have n: "rec ?env = None" by (simp add: r snapshot_def)
  have calls: "predict_calls (fst (cycle fmt cfg ?env st)) = []"
    unfolding cycle_calls by (simp add: null_model_unknown [OF n])
  have people: "\<forall>p\<in>set (current_people (snd (cycle fmt cfg ?env st))).
                  label p = ''unknown'' \<and> conf p = None"
  proof
    fix p
    assume p: "p \<in> set (current_people (snd (cycle fmt cfg ?env st)))"
    then have "label p \<in> set (map label (current_people (snd (cycle fmt cfg ?env st))))"
      and "conf p \<in> set (map conf (current_people (snd (cycle fmt cfg ?env st))))"
      by simp_all
    then show "label p = ''unknown'' \<and> conf p = None"
      unfolding cycle_people_labels by (auto simp: null_model_unknown [OF n])
  qed
  show "reload_recognizer cfg env rs =
          (True, \<lparr> recognizer = None, label2id = [], id2label = [] \<rparr>) \<and>
        predict_calls (fst (cycle fmt cfg ?env st)) = [] \<and>
        (\<forall>p\<in>set (current_people (snd (cycle fmt cfg ?env st))).
           label p = ''unknown'' \<and> conf p = None)"
    using r calls people by blast
qed

theorem empty_training_reload_witness:
  "ENABLE_RECOG default_config \<and> has_contrib empty_train_env \<and>
   iter_face_paths (RECOG_DATA_DIR default_config) (train_root empty_train_env) =
     Inr [(''bob'', ''faces/bob/b1.png'')] \<and>
   load empty_train_env ''faces/bob/b1.png'' = Unreadable \<and>
   reload_recognizer default_config empty_train_env sample_recog_state = (True, recog_init) \<and>
   map label (current_people (snd (cycle sample_fmt default_config
       (snapshot (snd (reload_recognizer default_config empty_train_env sample_recog_state))
          sample_env)
       (loop_init\<lparr>frame_idx := 1\<rparr>)))) = [''unknown'', ''unknown'']"
proof -
  have l: "load empty_train_env ''faces/bob/b1.png'' = Unreadable"
    by (simp add: empty_train_env_def sample_load_def)
  have c: "ENABLE_RECOG default_config \<and> has_contrib empty_train_env"
    by (simp add: default_config_def empty_train_env_def)
  have h: "\<not> ENABLE_RECOG default_config \<or>
     has_contrib empty_train_env \<and>
     iter_face_paths (RECOG_DATA_DIR default_config) (train_root empty_train_env) =
       Inr [(''bob'', ''faces/bob/b1.png'')] \<and>
     (\<forall>(l, path)\<in>set [(''bob'', ''faces/bob/b1.png'')].
        \<forall>img. load empty_train_env path \<noteq> Loaded img)"
    using c l empty_paths by simp
  note e = empty_training_reload [of default_config empty_train_env
      "[(''bob'', ''faces/bob/b1.png'')]" sample_recog_state
      sample_fmt sample_env "loop_init\<lparr>frame_idx := 1\<rparr>", rule_format, OF h]
  have m: "map label (current_people (snd (cycle sample_fmt default_config
       (snapshot (snd (reload_recognizer default_config empty_train_env sample_recog_state))
          sample_env)
       (loop_init\<lparr>frame_idx := 1\<rparr>)))) = [''unknown'', ''unknown'']"
    by code_simp
  show ?thesis using e l c m empty_paths by (simp add: recog_init_def)
qed

text \<open>
  Without the OpenCV \<^verbatim>\<open>face\<close> module the reload of a root with no readable image
  fails: \<^verbatim>\<open>_ensure_opencv_contrib\<close> raises and \<^verbatim>\<open>reload_recognizer\<close> returns false.  With
  the module, it fails when a label directory cannot be listed.
\<close>

theorem empty_training_reload_counterexample:
  "iter_face_paths (RECOG_DATA_DIR default_config) (train_root no_contrib_env) =
     Inr [(''bob'', ''faces/bob/b1.png'')] \<and>
   load no_contrib_env ''faces/bob/b1.png'' = Unreadable \<and>
   \<not> fst (reload_recognizer default_config no_contrib_env recog_init) \<and>
   has_contrib unlistable_env \<and>
   map fst (entries (train_root unlistable_env)) = [''bob'', ''carol''] \<and>
   map_of (entries (train_root unlistable_env)) ''bob'' = Some (Files [''b1.png'']) \<and>
   map_of (entries (train_root unlistable_env)) ''carol'' = Some Unlistable \<and>
   load unlistable_env ''faces/bob/b1.png'' = Unreadable \<and>
   \<not> fst (reload_recognizer default_config unlistable_env recog_init)"
  by code_simp

section \<open>Properties of the capture session\<close>

lemma worker_step_length [simp]:
  "length (threads (worker_step cfg inp i s)) = length (threads s)"
  by (simp add: worker_step_def Let_def split: wpc.splits save_result.splits)

lemma join_length [simp]: "length (threads (join cfg sched t s)) = length (threads s)"
  by (induction cfg sched t s rule: join.induct) simp_all

lemma join_capture_thread_length [simp]:
  "length (threads (join_capture_thread cfg sched s)) = length (threads s)"
  by (simp add: join_capture_thread_def)

lemma worker_step_running:
  "running (cap (worker_step cfg inp i s)) \<Longrightarrow> running (cap s)"
  by (simp add: worker_step_def Let_def split: if_splits wpc.splits save_result.splits)

lemma run_steps_Cons:
  "run_steps cfg ((i, inp) # sched) s = run_steps cfg sched (worker_step cfg inp i s)"
  by (simp add: run_steps_def)

lemma run_steps_Nil: "run_steps cfg [] s = s"
  by (simp add: run_steps_def)

lemma run_steps_running: "running (cap (run_steps cfg sched s)) \<Longrightarrow> running (cap s)"
proof (induction sched arbitrary: s)
  case Nil
  then show ?case by (simp add: run_steps_Nil)
next
  case (Cons step sched)
  obtain i inp where st: "step = (i, inp)" by (cases step)
  from Cons.prems have "running (cap (run_steps cfg sched (worker_step cfg inp i s)))"
    by (simp add: st run_steps_Cons)
  then have "running (cap (worker_step cfg inp i s))" by (rule Cons.IH)
  then show ?case by (rule worker_step_running)
qed

lemma worker_step_past_store_nth:
  "j < length (threads s) \<Longrightarrow> past_store (threads s ! j) \<Longrightarrow>
     past_store (threads (worker_step cfg inp i s) ! j)"
  by (cases "i = j")
     (auto simp: worker_step_def Let_def past_store_def split: wpc.splits save_result.splits)

lemma join_past_store_nth:
  "j < length (threads s) \<Longrightarrow> past_store (threads s ! j) \<Longrightarrow>
     past_store (threads (join cfg sched t s) ! j)"
  by (induction cfg sched t s rule: join.induct)
     (simp_all add: worker_step_past_store_nth)

lemma worker_step_all_past_store:
  assumes "\<forall>w\<in>set (threads s). past_store w"
  shows "(\<forall>w\<in>set (threads (worker_step cfg inp i s)). past_store w) \<and>
         saved (cap (worker_step cfg inp i s)) = saved (cap s)"
proof
  show "\<forall>w\<in>set (threads (worker_step cfg inp i s)). past_store w"
    using assms worker_step_past_store_nth [of _ s cfg inp i]
    by (simp add: all_set_conv_all_nth)
  show "saved (cap (worker_step cfg inp i s)) = saved (cap s)"
  proof (cases "i < length (threads s)")
    case True
    then have "past_store (threads s ! i)" using assms by simp
    then show ?thesis using True
      by (auto simp: worker_step_def Let_def past_store_def)
  next
    case False
    then show ?thesis by (simp add: worker_step_def)
  qed
qed

lemma run_steps_all_past_store:
  "\<forall>w\<in>set (threads s). past_store w \<Longrightarrow>
     (\<forall>w\<in>set (threads (run_steps cfg sched s)). past_store w) \<and>
     saved (cap (run_steps cfg sched s)) = saved (cap s)"
proof (induction sched arbitrary: s)
  case Nil
  then show ?case by (simp add: run_steps_Nil)
next
  case (Cons step sched)
  obtain i inp where st: "step = (i, inp)" by (cases step)
  note w = worker_step_all_past_store [OF Cons.prems, of cfg inp i]
  from Cons.IH [OF w [THEN conjunct1]] w [THEN conjunct2]
  show ?case by (simp add: st run_steps_Cons)
qed

lemma stop_past_store_nth:
  "j < length (threads s) \<Longrightarrow> past_store (threads s ! j) \<Longrightarrow>
     past_store (threads (snd (api_capture_stop cfg sched s)) ! j)"
  by (simp add: api_capture_stop_def Let_def join_capture_thread_def join_past_store_nth)

lemma stop_length [simp]:
  "length (threads (snd (api_capture_stop cfg sched s))) = length (threads s)"
  by (simp add: api_capture_stop_def Let_def)

text \<open>
  Claim C6, as the code has it.  A start call made while \<^verbatim>\<open>running\<close> is true changes
  nothing: the session record, the event flag, the worker threads and the recognizer
  are as before.  Its answer is a failure: the conflict status 409 when the call has a
  label, and the bad-request status 400 when the label is missing or empty, since the
  label is checked first.
\<close>

theorem start_while_running:
  "running (cap s) \<longrightarrow>
     snd (api_capture_start p s) = s \<and> \<not> ok (fst (api_capture_start p s)) \<and>
     status (fst (api_capture_start p s)) = (if no_label (req_label p) then 400 else 409)"
  by (simp add: api_capture_start_def)

theorem start_while_running_witness:
  "running (cap (exec default_config [StartCapture sample_params])) \<and>
   \<not> no_label (req_label sample_params) \<and>
   snd (api_capture_start sample_params (exec default_config [StartCapture sample_params])) =
     exec default_config [StartCapture sample_params] \<and>
   status (fst (api_capture_start sample_params
                  (exec default_config [StartCapture sample_params]))) = 409"
proof -
  have r: "running (cap (exec default_config [StartCapture sample_params]))"
    by code_simp
  have l: "\<not> no_label (req_label sample_params)"
    by (simp add: no_label_def sample_params_def)
  from start_while_running [of "exec default_config [StartCapture sample_params]"
      sample_params, rule_format, OF r] l
  show ?thesis using r by simp
qed

text \<open>
  A start call without a label, made while a session is running, is answered with
  status 400, not with the conflict status.
\<close>

theorem start_while_running_counterexample:
  "running (cap (exec default_config [StartCapture sample_params])) \<and>
   status (fst (api_capture_start (sample_params\<lparr>req_label := None\<rparr>)
                  (exec default_config [StartCapture sample_params]))) = 400"
  by code_simp

text \<open>
  Claim C7, as the code has it.  A stop call made when no session is running changes
  nothing and reports the existing saved list.  When a stop call reports
  \<^verbatim>\<open>running\<close> false and no worker is still before line 358, where it stores its list,
  a second stop call, after any worker steps in between and no other request, changes
  nothing and reports the same saved list.  No worker is before line 358 after the first
  call when all workers but the latest were past it before the call and the latest has
  ended by the end of the call's wait.
\<close>

theorem stop_idempotent:
  "(\<not> running (cap s) \<longrightarrow>
      api_capture_stop cfg sched s =
        (\<lparr> status = 200, ok = True, resp_running = Some False,
            resp_saved = Some (saved (cap s)) \<rparr>, s)) \<and>
   (resp_running (fst (api_capture_stop cfg sched1 s)) = Some False \<and>
    (\<forall>w\<in>set (threads (snd (api_capture_stop cfg sched1 s))). past_store w) \<longrightarrow>
      resp_saved (fst (api_capture_stop cfg sched2
          (run_steps cfg between (snd (api_capture_stop cfg sched1 s))))) =
        resp_saved (fst (api_capture_stop cfg sched1 s)) \<and>
      resp_running (fst (api_capture_stop cfg sched2
          (run_steps cfg between (snd (api_capture_stop cfg sched1 s))))) = Some False \<and>
      snd (api_capture_stop cfg sched2
          (run_steps cfg between (snd (api_capture_stop cfg sched1 s)))) =
        run_steps cfg between (snd (api_capture_stop cfg sched1 s))) \<and>
   (threads s \<noteq> [] \<and> (\<forall>w\<in>set (butlast (threads s)). past_store w) \<and>
    \<not> is_alive (last (threads (snd (api_capture_stop cfg sched1 s)))) \<longrightarrow>
      (\<forall>w\<in>set (threads (snd (api_capture_stop cfg sched1 s))). past_store w))"
proof (intro conjI impI)
  assume "\<not> running (cap s)"
  then show "api_capture_stop cfg sched s =
        (\<lparr> status = 200, ok = True, resp_running = Some False,
            resp_saved = Some (saved (cap s)) \<rparr>, s)"
    by (simp add: api_capture_stop_def)
next
  assume a: "resp_running (fst (api_capture_stop cfg sched1 s)) = Some False \<and>
    (\<forall>w\<in>set (threads (snd (api_capture_stop cfg sched1 s))). past_store w)"
  define s1 where "s1 = snd (api_capture_stop cfg sched1 s)"
  define s2 where "s2 = run_steps cfg between s1"
  have idle: "\<not> running (cap s1)"
    and sv: "resp_saved (fst (api_capture_stop cfg sched1 s)) = Some (saved (cap s1))"
    using a unfolding s1_def by (auto simp: api_capture_stop_def Let_def split: if_splits)
  have ps: "\<forall>w\<in>set (threads s1). past_store w" using a unfolding s1_def by simp
  have idle2: "\<not> running (cap s2)"
    using idle run_steps_running [of cfg between s1] unfolding s2_def by blast
  have sv2: "saved (cap s2) = saved (cap s1)"
    using run_steps_all_past_store [OF ps, of cfg between] unfolding s2_def by simp
  have again: "api_capture_stop cfg sched2 s2 =
        (\<lparr> status = 200, ok = True, resp_running = Some False,
            resp_saved = Some (saved (cap s2)) \<rparr>, s2)"
    using idle2 by (simp add: api_capture_stop_def)
  show "resp_saved (fst (api_capture_stop cfg sched2
          (run_steps cfg between (snd (api_capture_stop cfg sched1 s))))) =
        resp_saved (fst (api_capture_stop cfg sched1 s))"
    using again sv sv2 unfolding s2_def s1_def by simp
  show "resp_running (fst (api_capture_stop cfg sched2
          (run_steps cfg between (snd (api_capture_stop cfg sched1 s))))) = Some False"
    using again unfolding s2_def s1_def by simp
  show "snd (api_capture_stop cfg sched2
          (run_steps cfg between (snd (api_capture_stop cfg sched1 s)))) =
        run_steps cfg between (snd (api_capture_stop cfg sched1 s))"
    using again unfolding s2_def s1_def by simp
next
  assume b: "threads s \<noteq> [] \<and> (\<forall>w\<in>set (butlast (threads s)). past_store w) \<and>
    \<not> is_alive (last (threads (snd (api_capture_stop cfg sched1 s))))"
  define s1 where "s1 = snd (api_capture_stop cfg sched1 s)"
  have len: "length (threads s1) = length (threads s)" unfolding s1_def by simp
  have ne: "threads s1 \<noteq> []" using b len by auto
  have "past_store (threads s1 ! j)" if j: "j < length (threads s1)" for j
  proof (cases "j = length (threads s1) - 1")
    case True
    have "\<not> is_alive (last (threads s1))" using b unfolding s1_def by simp
    then have "past_store (last (threads s1))" by (auto simp: is_alive_def past_store_def)
    then show ?thesis using True ne by (simp add: last_conv_nth)
  next
    case False
    then have jl: "j < length (butlast (threads s))" using j len by simp
    then have "butlast (threads s) ! j \<in> set (butlast (threads s))" by (rule nth_mem)
    then have "past_store (butlast (threads s) ! j)" using b by blast
    then have "past_store (threads s ! j)" using jl by (simp add: nth_butlast)
    then show ?thesis
      unfolding s1_def using j len stop_past_store_nth [of j s cfg sched1] by simp
  qed
  then show "\<forall>w\<in>set (threads (snd (api_capture_stop cfg sched1 s))). past_store w"
    unfolding s1_def by (simp add: all_set_conv_all_nth)
qed

theorem stop_idempotent_witness:
  "\<not> running (cap sys_init) \<and>
   fst (api_capture_stop default_config [] sys_init) =
     \<lparr> status = 200, ok = True, resp_running = Some False, resp_saved = Some [] \<rparr> \<and>
   threads capturing_state \<noteq> [] \<and> butlast (threads capturing_state) = [] \<and>
   \<not> is_alive (last (threads (snd (api_capture_stop default_config finishing_schedule
                                      capturing_state)))) \<and>
   resp_running (fst (api_capture_stop default_config finishing_schedule capturing_state)) =
     Some False \<and>
   resp_saved (fst (api_capture_stop default_config finishing_schedule capturing_state)) =
     Some [''faces/alice/a1.jpg''] \<and>
   resp_saved (fst (api_capture_stop default_config []
       (run_steps default_config finishing_schedule
          (snd (api_capture_stop default_config finishing_schedule capturing_state))))) =
     Some [''faces/alice/a1.jpg'']"
proof -
  have i: "\<not> running (cap sys_init)" by code_simp
  have e: "saved (cap sys_init) = []" by code_simp
  have f: "resp_running (fst (api_capture_stop default_config finishing_schedule
                                capturing_state)) = Some False"
    by code_simp
  have v: "resp_saved (fst (api_capture_stop default_config finishing_schedule
                              capturing_state)) = Some [''faces/alice/a1.jpg'']"
    by code_simp
  have t: "threads capturing_state \<noteq> []" by code_simp
  have u: "butlast (threads capturing_state) = []" by code_simp
  have d: "\<not> is_alive (last (threads (snd (api_capture_stop default_config
                                             finishing_schedule capturing_state))))"
    by code_simp
  have h3: "threads capturing_state \<noteq> [] \<and>
            (\<forall>w\<in>set (butlast (threads capturing_state)). past_store w) \<and>
            \<not> is_alive (last (threads (snd (api_capture_stop default_config
                                               finishing_schedule capturing_state))))"
    using t u d by simp
  note th2 = stop_idempotent [of capturing_state default_config "[]" finishing_schedule
      "[]" finishing_schedule]
  note p = th2 [THEN conjunct2, THEN conjunct2, rule_format, OF h3]
  have h2: "resp_running (fst (api_capture_stop default_config finishing_schedule
                                 capturing_state)) = Some False \<and>
            (\<forall>w\<in>set (threads (snd (api_capture_stop default_config finishing_schedule
                                      capturing_state))). past_store w)"
    using f p by blast
  note b = th2 [THEN conjunct2, THEN conjunct1, rule_format, OF h2, THEN conjunct1]
  note a = stop_idempotent [of sys_init default_config "[]" "[]" "[]" "[]",
      THEN conjunct1, rule_format, OF i]
  show ?thesis using i e f v t u d a b by simp
qed

text \<open>
  A first stop call whose wait ends while the worker still sleeps reports an empty saved
  list; the stop call that follows sees the worker finish and reports the saved image.
  After a delete whose wait timed out, two stop calls both report \<^verbatim>\<open>running\<close> false,
  and the worker stores its list between them.
\<close>

theorem stop_idempotent_counterexample:
  "running (cap capturing_state) \<and>
   resp_saved (fst (api_capture_stop default_config [] capturing_state)) = Some [] \<and>
   resp_saved (fst (api_capture_stop default_config finishing_schedule
       (snd (api_capture_stop default_config [] capturing_state)))) =
     Some [''faces/alice/a1.jpg''] \<and>
   resp_running (fst (api_capture_stop default_config [] cancelled_state)) = Some False \<and>
   resp_saved (fst (api_capture_stop default_config [] cancelled_state)) = Some [] \<and>
   resp_running (fst (api_capture_stop default_config []
       (run_steps default_config finishing_schedule
          (snd (api_capture_stop default_config [] cancelled_state))))) = Some False \<and>
   resp_saved (fst (api_capture_stop default_config []
       (run_steps default_config finishing_schedule
          (snd (api_capture_stop default_config [] cancelled_state))))) =
     Some [''faces/alice/a1.jpg'']"
  by code_simp

text \<open>
  Claim C3 fails on the code.  In \<^verbatim>\<open>_capture_worker\<close> line 359 sets \<^verbatim>\<open>running\<close> to false
  before lines 361--362 call \<^verbatim>\<open>reload_recognizer\<close>: for a session with
  \<^verbatim>\<open>retrain_on_stop\<close> that has reached its target, there is a state in which
  \<^verbatim>\<open>running\<close> reads false while the recognizer is still the old one; the retrain takes
  effect only with the worker's next step.  A register call that waits for the session
  and polls \<^verbatim>\<open>running\<close> in that state answers with status 200 while no label is
  registered yet.
\<close>

theorem worker_idle_before_reload:
  "\<not> running (cap idle_state) \<and> retrain_on_stop (cap idle_state) \<and>
   saved (cap idle_state) = [''faces/alice/a1.jpg''] \<and>
   map pc (threads idle_state) = [W_Retrain] \<and>
   rstate idle_state = recog_init \<and>
   rstate (apply_event default_config idle_state (WorkerStep 0 sample_input)) =
     sample_recog_state \<and>
   status (fst (api_register default_config sample_params True
                  polling_schedule sys_init)) = 200 \<and>
   resp_running (fst (api_register default_config sample_params True
                        polling_schedule sys_init)) = Some False \<and>
   label2id (rstate (snd (api_register default_config sample_params True
                            polling_schedule sys_init))) = []"
  by code_simp

text \<open>
  Claim C5 fails on the code.  The start and register handlers test \<^verbatim>\<open>running\<close> (lines
  371, 558) and set it (lines 374--375, 561--562) without a lock, and the server runs
  handlers in concurrent threads.  Two start requests that both pass the test before
  either sets the flag both start a worker: the second starts its worker from a state in
  which \<^verbatim>\<open>running\<close> is true, and two sessions run at once on the one session record.
  Also with requests handled one at a time two workers end up alive together: a delete
  whose wait for the worker times out clears \<^verbatim>\<open>running\<close> (line 667) while that worker
  lives, and the next start launches a second worker and clears the event the first one
  was to stop on (line 384).
\<close>

theorem concurrent_starts_two_workers:
  "running (cap racing_state) \<and>
   map is_alive (threads racing_state) = [True] \<and>
   admitted racing_state = [other_params] \<and>
   running (cap (apply_event default_config racing_state (Commit 0))) \<and>
   map is_alive (threads (apply_event default_config racing_state (Commit 0))) =
     [True, True] \<and>
   cap_label (cap (apply_event default_config racing_state (Commit 0))) = Some ''bob'' \<and>
   running (cap overlap_state) \<and> \<not> capture_event overlap_state \<and>
   map pc (threads overlap_state) = [W_Loop, W_Start] \<and>
   map w_label (threads overlap_state) = [Some ''alice'', None] \<and>
   cap_label (cap overlap_state) = Some ''bob''"
  by code_simp

end
